theory Spec2Isabelle
  imports Main
begin

section \<open>The MLCC cipher pipeline (mlcc\_core.py)\<close>

text \<open>
  Python strings are modelled as \<^typ>\<open>string\<close>. The two Unicode-aware operations the
  pipeline uses, \<open>str.upper\<close> and \<open>str.isalpha\<close>, are written out for the ASCII
  range, where they are exact; a character outside ASCII is left unchanged by
  \<open>upper_char\<close> and is not alphabetic for \<open>isalpha\<close>, which is not what Python does
  there (it keeps non-ASCII letters and upper-cases them), so statements that involve
  \<open>clean\<close> or \<open>upper\<close> speak for ASCII input. Python integers are
  \<^typ>\<open>int\<close>; lengths and indices that the code keeps non-negative are \<^typ>\<open>nat\<close>.
  Exceptions are values of \<open>py_error\<close>. The pipeline applies \<open>chr\<close> only to numbers
  between 65 and 90, where \<open>char_of\<close> is Python's \<open>chr\<close>.
\<close>

datatype py_error =
    ValueError string
  | KeyError
  | IndexError
  | ZeroDivisionError
  | SystemExit nat

subsection \<open>Characters\<close>

definition ord :: "char \<Rightarrow> int" where
  "ord c = of_char c"

definition chr :: "int \<Rightarrow> char" where
  "chr n = char_of n"

definition isalpha :: "char \<Rightarrow> bool" where
  "isalpha c = ((65 \<le> ord c \<and> ord c \<le> 90) \<or> (97 \<le> ord c \<and> ord c \<le> 122))"

definition upper_char :: "char \<Rightarrow> char" where
  "upper_char c = (if 97 \<le> ord c \<and> ord c \<le> 122 then chr (ord c - 32) else c)"

definition upper :: "string \<Rightarrow> string" where
  "upper s = map upper_char s"

definition standard_alphabet :: string where
  "standard_alphabet = ''ABCDEFGHIJKLMNOPQRSTUVWXYZ''"

subsection \<open>Construction and key validation\<close>

record mlcc =
  substitution_key :: string
  vigenere_key :: string
  transposition_key :: "int list"
  substitution_map :: "char \<rightharpoonup> char"
  reverse_substitution_map :: "char \<rightharpoonup> char"

text \<open>
  The two dictionary comprehensions of \<open>__init__\<close> insert their 26 entries in index
  order, so a later entry with the same key replaces an earlier one.
\<close>

definition build_map :: "'k list \<Rightarrow> 'v list \<Rightarrow> ('k \<rightharpoonup> 'v)" where
  "build_map ks vs = fold (\<lambda>i m. m(ks ! i \<mapsto> vs ! i)) [0..<26] Map.empty"

definition mlcc_init :: "string \<Rightarrow> string \<Rightarrow> int list \<Rightarrow> py_error + mlcc" where
  "mlcc_init sk vk tk =
     (if length sk \<noteq> 26 \<or> card (set sk) \<noteq> 26 then
        Inl (ValueError ''Substitution key must be 26 unique characters'')
      else if length vk < 10 then
        Inl (ValueError ''Vigenere key must be at least 10 characters'')
      else if length tk < 3 then
        Inl (ValueError ''Transposition key must have at least 3 elements'')
      else
        Inr \<lparr> substitution_key = upper sk,
              vigenere_key = upper vk,
              transposition_key = tk,
              substitution_map = build_map standard_alphabet (upper sk),
              reverse_substitution_map = build_map (upper sk) standard_alphabet \<rparr>)"

subsection \<open>Cleaning and substitution\<close>

definition clean :: "string \<Rightarrow> string" where
  "clean plaintext = filter isalpha (upper plaintext)"

text \<open>A dictionary lookup per character; a missing key raises \<open>KeyError\<close>.\<close>

fun lookup_all :: "('k \<rightharpoonup> 'v) \<Rightarrow> 'k list \<Rightarrow> py_error + 'v list" where
  "lookup_all m [] = Inr []"
| "lookup_all m (k # ks) =
     (case m k of
        None \<Rightarrow> Inl KeyError
      | Some v \<Rightarrow> (case lookup_all m ks of Inl e \<Rightarrow> Inl e | Inr vs \<Rightarrow> Inr (v # vs)))"

subsection \<open>The modified Vigenere stage\<close>

definition encrypted_char :: "char \<Rightarrow> int \<Rightarrow> int \<Rightarrow> char" where
  "encrypted_char c shift modifier = chr ((ord c - 65 + shift * modifier) mod 26 + 65)"

definition decrypted_char :: "char \<Rightarrow> int \<Rightarrow> int \<Rightarrow> char" where
  "decrypted_char c shift modifier = chr ((ord c - 65 - shift * modifier + 26) mod 26 + 65)"

text \<open>
  The loops of \<open>encrypt\<close> (lines 36-49) and \<open>decrypt\<close> (lines 148-161): the position
  \<open>i\<close> and \<open>key_rotation\<close> are the loop state.
\<close>

fun vigenere_encrypt_loop :: "string \<Rightarrow> nat \<Rightarrow> nat \<Rightarrow> string \<Rightarrow> string" where
  "vigenere_encrypt_loop key i key_rotation [] = []"
| "vigenere_encrypt_loop key i key_rotation (c # cs) =
     (let effective_key = key ! ((i + key_rotation) mod length key);
          shift = ord effective_key - 65;
          modifier = int (i mod 5) + 1
      in encrypted_char c shift modifier #
         vigenere_encrypt_loop key (i + 1)
           (if (i + 1) mod 5 = 0 then (key_rotation + 1) mod length key else key_rotation) cs)"

fun vigenere_decrypt_loop :: "string \<Rightarrow> nat \<Rightarrow> nat \<Rightarrow> string \<Rightarrow> string" where
  "vigenere_decrypt_loop key i key_rotation [] = []"
| "vigenere_decrypt_loop key i key_rotation (c # cs) =
     (let effective_key = key ! ((i + key_rotation) mod length key);
          shift = ord effective_key - 65;
          modifier = int (i mod 5) + 1
      in decrypted_char c shift modifier #
         vigenere_decrypt_loop key (i + 1)
           (if (i + 1) mod 5 = 0 then (key_rotation + 1) mod length key else key_rotation) cs)"

definition vigenere_encrypt :: "string \<Rightarrow> string \<Rightarrow> string" where
  "vigenere_encrypt key substituted_text = vigenere_encrypt_loop key 0 0 substituted_text"

definition vigenere_decrypt :: "string \<Rightarrow> string \<Rightarrow> string" where
  "vigenere_decrypt key vigenere_result = vigenere_decrypt_loop key 0 0 vigenere_result"

text \<open>
  The value of \<open>key_rotation\<close> when the loop reaches position \<open>i\<close>: it starts at 0 and
  is advanced after each position \<open>j\<close> with \<open>(j + 1) mod 5 = 0\<close>.
\<close>

fun key_rotation_at :: "nat \<Rightarrow> nat \<Rightarrow> nat" where
  "key_rotation_at K 0 = 0"
| "key_rotation_at K (Suc j) =
     (if (j + 1) mod 5 = 0 then (key_rotation_at K j + 1) mod K else key_rotation_at K j)"

definition effective_key_index :: "nat \<Rightarrow> nat \<Rightarrow> nat" where
  "effective_key_index K i = (i + key_rotation_at K i) mod K"

subsection \<open>The zigzag transposition stage\<close>

text \<open>
  A grid cell is a Python string: empty, or one character. \<open>math.ceil(L / C)\<close> is
  the integer ceiling of the quotient (the float division is exact for every length
  below \<open>2^53\<close>).
\<close>

definition ceil_div :: "nat \<Rightarrow> nat \<Rightarrow> nat" where
  "ceil_div L C = (L + C - 1) div C"

definition empty_grid :: "nat \<Rightarrow> nat \<Rightarrow> 'a list list list" where
  "empty_grid num_rows num_columns = replicate num_rows (replicate num_columns [])"

definition set_cell :: "'a list list list \<Rightarrow> nat \<Rightarrow> nat \<Rightarrow> 'a list \<Rightarrow> 'a list list list" where
  "set_cell grid row col v = grid[row := (grid ! row)[col := v]]"

text \<open>
  \<open>if index < len(text): grid[row][col] = text[index]; index += 1\<close>, the body shared
  by the fill loops of \<open>encrypt\<close> and \<open>decrypt\<close>.
\<close>

definition put_cell ::
  "'a list \<Rightarrow> nat \<Rightarrow> nat \<Rightarrow> 'a list list list \<times> nat \<Rightarrow> 'a list list list \<times> nat" where
  "put_cell text row col st =
     (case st of (grid, index) \<Rightarrow>
        if index < length text then (set_cell grid row col [text ! index], index + 1)
        else (grid, index))"

definition direction_cols :: "int \<Rightarrow> nat \<Rightarrow> nat list" where
  "direction_cols direction num_columns =
     (if direction = 1 then [0..<num_columns] else rev [0..<num_columns])"

definition fill_row ::
  "'a list \<Rightarrow> nat \<Rightarrow> nat \<Rightarrow> 'a list list list \<times> nat \<times> int \<Rightarrow> 'a list list list \<times> nat \<times> int" where
  "fill_row text num_columns row st =
     (case st of (grid, index, direction) \<Rightarrow>
        (case fold (put_cell text row) (direction_cols direction num_columns) (grid, index) of
           (grid', index') \<Rightarrow> (grid', index', direction * (- 1))))"

definition zigzag_fill :: "'a list \<Rightarrow> nat \<Rightarrow> nat \<Rightarrow> 'a list list list" where
  "zigzag_fill text num_columns num_rows =
     fst (fold (fill_row text num_columns) [0..<num_rows]
            (empty_grid num_rows num_columns, 0, 1))"

definition column_order :: "int list \<Rightarrow> nat list" where
  "column_order tk = sort_key (\<lambda>i. tk ! i) [0..<length tk]"

text \<open>\<open>if grid[row][col]: out += grid[row][col]\<close>\<close>

definition append_cell :: "'a list list list \<Rightarrow> nat \<Rightarrow> nat \<Rightarrow> 'a list \<Rightarrow> 'a list" where
  "append_cell grid row col out =
     (if grid ! row ! col \<noteq> [] then out @ grid ! row ! col else out)"

definition read_columns :: "'a list list list \<Rightarrow> nat \<Rightarrow> nat list \<Rightarrow> 'a list" where
  "read_columns grid num_rows order =
     fold (\<lambda>col out. fold (\<lambda>row. append_cell grid row col) [0..<num_rows] out) order []"

definition transposition_encrypt :: "int list \<Rightarrow> 'a list \<Rightarrow> 'a list" where
  "transposition_encrypt tk vigenere_result =
     (let num_columns = length tk;
          num_rows = ceil_div (length vigenere_result) num_columns;
          grid = zigzag_fill vigenere_result num_columns num_rows
      in read_columns grid num_rows (column_order tk))"

definition short_columns :: "nat \<Rightarrow> nat \<Rightarrow> nat \<Rightarrow> nat list" where
  "short_columns num_columns num_rows L =
     (let num_empty_cells = num_rows * num_columns - L;
          last_row_index = int num_rows - 1
      in if num_empty_cells > 0 then
           (if last_row_index mod 2 = 0 then [num_columns - num_empty_cells..<num_columns]
            else [0..<num_empty_cells])
         else [])"

definition col_lengths :: "nat list \<Rightarrow> nat \<Rightarrow> nat \<Rightarrow> nat" where
  "col_lengths short num_rows col_index =
     (if col_index \<in> set short then num_rows - 1 else num_rows)"

definition column_fill :: "'a list \<Rightarrow> nat \<Rightarrow> nat \<Rightarrow> nat list \<Rightarrow> (nat \<Rightarrow> nat) \<Rightarrow> 'a list list list" where
  "column_fill ciphertext num_columns num_rows order lens =
     fst (fold (\<lambda>original_col_index st.
                  fold (\<lambda>row. put_cell ciphertext row original_col_index)
                       [0..<lens original_col_index] st)
            order (empty_grid num_rows num_columns, 0))"

definition read_row ::
  "'a list list list \<Rightarrow> nat \<Rightarrow> nat \<Rightarrow> 'a list \<times> int \<Rightarrow> 'a list \<times> int" where
  "read_row grid num_columns row st =
     (case st of (out, direction) \<Rightarrow>
        (fold (append_cell grid row) (direction_cols direction num_columns) out,
         direction * (- 1)))"

definition zigzag_read :: "'a list list list \<Rightarrow> nat \<Rightarrow> nat \<Rightarrow> 'a list" where
  "zigzag_read grid num_columns num_rows =
     fst (fold (read_row grid num_columns) [0..<num_rows] ([], 1))"

definition transposition_decrypt :: "int list \<Rightarrow> 'a list \<Rightarrow> 'a list" where
  "transposition_decrypt tk ciphertext =
     (let num_columns = length tk;
          L = length ciphertext;
          num_rows = ceil_div L num_columns;
          short = short_columns num_columns num_rows L;
          grid = column_fill ciphertext num_columns num_rows (column_order tk)
                   (col_lengths short num_rows)
      in zigzag_read grid num_columns num_rows)"

subsection \<open>encrypt and decrypt\<close>

record encrypt_result =
  ciphertext :: string
  substituted_text :: string
  vigenere_result :: string
  grid :: "string list list"
  column_order_used :: "nat list"

definition encrypt :: "mlcc \<Rightarrow> string \<Rightarrow> py_error + encrypt_result" where
  "encrypt self plaintext =
     (let cleaned_text = clean plaintext in
      case lookup_all (substitution_map self) cleaned_text of
        Inl e \<Rightarrow> Inl e
      | Inr substituted \<Rightarrow>
          (let vig = vigenere_encrypt (vigenere_key self) substituted;
               num_columns = length (transposition_key self);
               num_rows = ceil_div (length vig) num_columns
           in Inr \<lparr> ciphertext = transposition_encrypt (transposition_key self) vig,
                    substituted_text = substituted,
                    vigenere_result = vig,
                    grid = zigzag_fill vig num_columns num_rows,
                    column_order_used = column_order (transposition_key self) \<rparr>))"

definition decrypt :: "mlcc \<Rightarrow> string \<Rightarrow> py_error + string" where
  "decrypt self ct =
     (let vig = transposition_decrypt (transposition_key self) ct;
          substituted = vigenere_decrypt (vigenere_key self) vig
      in lookup_all (reverse_substitution_map self) substituted)"

section \<open>The Vigenere key recoverer (attacks/vigenere\_cracker.py)\<close>

definition ALPHABET_MAP :: "char \<rightharpoonup> nat" where
  "ALPHABET_MAP = map_of (zip standard_alphabet [0..<26])"

definition INV_ALPHABET_MAP :: "nat \<rightharpoonup> char" where
  "INV_ALPHABET_MAP = map_of (zip [0..<26] standard_alphabet)"

definition clean_alpha :: "string \<Rightarrow> string" where
  "clean_alpha s = filter isalpha (upper s)"

definition pos_to_key_index :: "nat \<Rightarrow> nat \<Rightarrow> nat" where
  "pos_to_key_index i keylen = (i + (i div 5)) mod keylen"

definition modifier_for_pos :: "nat \<Rightarrow> nat" where
  "modifier_for_pos i = (i mod 5) + 1"

definition possible_shifts_for_pair :: "char \<Rightarrow> char \<Rightarrow> nat \<Rightarrow> nat list" where
  "possible_shifts_for_pair sub_ch vig_ch modifier =
     (case ALPHABET_MAP sub_ch of
        None \<Rightarrow> []
      | Some s_sub \<Rightarrow>
          (case ALPHABET_MAP vig_ch of
             None \<Rightarrow> []
           | Some s_vig \<Rightarrow> filter (\<lambda>s. (s_sub + s * modifier) mod 26 = s_vig) [0..<26]))"

record vig_result =
  keylen :: nat
  per_position_candidates :: "nat list list"
  enumerated_keys :: "(nat list \<times> string) list option"
  estimated_combinations :: nat

text \<open>
  The loop over the positions \<open>i\<close> of \<open>substituted\<close> (lines 80-92). \<open>Inr None\<close> is
  the early \<open>return None\<close>; reading \<open>vigenere_result[i]\<close> past its end raises
  \<open>IndexError\<close>, and a key length of 0 makes \<open>pos_to_key_index\<close> divide by zero.
\<close>

fun derive_loop ::
  "string \<Rightarrow> string \<Rightarrow> nat \<Rightarrow> nat list \<Rightarrow> nat set list \<Rightarrow> py_error + nat set list option" where
  "derive_loop substituted vig klen [] candidates = Inr (Some candidates)"
| "derive_loop substituted vig klen (i # rest) candidates =
     (if klen = 0 then Inl ZeroDivisionError
      else
        (let p = pos_to_key_index i klen;
             modifier = modifier_for_pos i;
             sub_ch = substituted ! i
         in if length vig \<le> i then Inl IndexError
            else
              (let vig_ch = vig ! i;
                   poss = possible_shifts_for_pair sub_ch vig_ch modifier
               in if poss = [] then Inr None
                  else
                    (let candidates' = candidates[p := (candidates ! p) \<inter> set poss]
                     in if candidates' ! p = {} then Inr None
                        else derive_loop substituted vig klen rest candidates'))))"

text \<open>The product of the list sizes, abandoned as soon as it exceeds the cap (lines 96-100).\<close>

fun total_comb_loop :: "int \<Rightarrow> nat list list \<Rightarrow> nat \<Rightarrow> nat" where
  "total_comb_loop max_combinations [] total_comb = total_comb"
| "total_comb_loop max_combinations (lst # rest) total_comb =
     (let total_comb' = total_comb * max 1 (length lst)
      in if int total_comb' > max_combinations then total_comb'
         else total_comb_loop max_combinations rest total_comb')"

fun enumerate_keys :: "nat list list \<Rightarrow> py_error + (nat list \<times> string) list" where
  "enumerate_keys [] = Inr []"
| "enumerate_keys (combo # rest) =
     (case lookup_all INV_ALPHABET_MAP combo of
        Inl e \<Rightarrow> Inl e
      | Inr key_letters \<Rightarrow>
          (case enumerate_keys rest of
             Inl e \<Rightarrow> Inl e
           | Inr keys \<Rightarrow> Inr ((combo, key_letters) # keys)))"

definition derive_candidates_for_keylen ::
  "string \<Rightarrow> string \<Rightarrow> nat \<Rightarrow> int \<Rightarrow> py_error + vig_result option" where
  "derive_candidates_for_keylen substituted vig keylen' max_combinations =
     (case derive_loop substituted vig keylen' [0..<length substituted]
             (replicate keylen' (set [0..<26])) of
        Inl e \<Rightarrow> Inl e
      | Inr None \<Rightarrow> Inr None
      | Inr (Some candidates) \<Rightarrow>
          (let candidate_lists = map sorted_list_of_set candidates;
               total_comb = total_comb_loop max_combinations candidate_lists 1
           in if total_comb = 0 then Inr None
              else if int total_comb \<le> max_combinations then
                (case enumerate_keys (product_lists candidate_lists) of
                   Inl e \<Rightarrow> Inl e
                 | Inr keys \<Rightarrow>
                     Inr (Some \<lparr> keylen = keylen',
                                 per_position_candidates = candidate_lists,
                                 enumerated_keys = Some keys,
                                 estimated_combinations = total_comb \<rparr>))
              else
                Inr (Some \<lparr> keylen = keylen',
                            per_position_candidates = candidate_lists,
                            enumerated_keys = None,
                            estimated_combinations = total_comb \<rparr>)))"

fun solve_loop :: "string \<Rightarrow> string \<Rightarrow> int \<Rightarrow> nat list \<Rightarrow> py_error + vig_result list" where
  "solve_loop substituted vig max_enum [] = Inr []"
| "solve_loop substituted vig max_enum (L # rest) =
     (case derive_candidates_for_keylen substituted vig L max_enum of
        Inl e \<Rightarrow> Inl e
      | Inr res \<Rightarrow>
          (case solve_loop substituted vig max_enum rest of
             Inl e \<Rightarrow> Inl e
           | Inr results \<Rightarrow>
               Inr (case res of None \<Rightarrow> results | Some r \<Rightarrow> r # results)))"

definition solve_by_trying_keylens ::
  "string \<Rightarrow> string \<Rightarrow> nat \<Rightarrow> nat \<Rightarrow> int \<Rightarrow> py_error + vig_result list" where
  "solve_by_trying_keylens substituted vig min_len max_len max_enum =
     solve_loop substituted vig max_enum [min_len..<max_len + 1]"

text \<open>
  \<open>main\<close> from the point where both raw strings are loaded (lines 185-207): both
  branches of \<open>--clean\<close> compute the same cleaned strings; \<open>sys.exit(n)\<close> is
  \<open>SystemExit n\<close>, and the value returned otherwise is the list of results that are
  printed.
\<close>

definition vigenere_main ::
  "string \<Rightarrow> string \<Rightarrow> nat \<Rightarrow> nat \<Rightarrow> int \<Rightarrow> py_error + vig_result list" where
  "vigenere_main sub_raw vig_raw min_keylen max_keylen max_enumerate =
     (let substituted = clean_alpha sub_raw;
          vig = clean_alpha vig_raw
      in if length substituted \<noteq> length vig then Inl (SystemExit 2)
         else if length substituted = 0 then Inl (SystemExit 2)
         else
           (case solve_by_trying_keylens substituted vig min_keylen max_keylen max_enumerate of
              Inl e \<Rightarrow> Inl e
            | Inr results \<Rightarrow> if results = [] then Inl (SystemExit 0) else Inr results))"

section \<open>The transposition solver's decoder (attacks/transposition\_bruteforce.py)\<close>

text \<open>\<open>key_order.index(pos)\<close>: the first index holding \<open>pos\<close>, \<open>ValueError\<close> if there is none.\<close>

fun list_index :: "'a list \<Rightarrow> 'a \<Rightarrow> py_error + nat" where
  "list_index [] x = Inl (ValueError ''x is not in list'')"
| "list_index (y # ys) x =
     (if y = x then Inr 0
      else (case list_index ys x of Inl e \<Rightarrow> Inl e | Inr n \<Rightarrow> Inr (n + 1)))"

text \<open>
  The loop that cuts the ciphertext into columns (lines 51-56). The slice
  \<open>cipher[index:index+col_len]\<close> is \<open>take col_len (drop index cipher)\<close>; when
  \<open>n_rows = 0\<close> the text is empty and so is every slice.
\<close>

fun slice_columns ::
  "'a list \<Rightarrow> nat list \<Rightarrow> nat list \<Rightarrow> nat list \<Rightarrow> nat \<Rightarrow> py_error + 'a list list" where
  "slice_columns cipher key_order lens [] index = Inr []"
| "slice_columns cipher key_order lens (pos # rest) index =
     (case list_index key_order pos of
        Inl e \<Rightarrow> Inl e
      | Inr k \<Rightarrow>
          (let col_len = lens ! k
           in case slice_columns cipher key_order lens rest (index + col_len) of
                Inl e \<Rightarrow> Inl e
              | Inr cols \<Rightarrow> Inr (take col_len (drop index cipher) # cols)))"

definition columnar_decrypt :: "'a list \<Rightarrow> nat list \<Rightarrow> py_error + 'a list" where
  "columnar_decrypt cipher key_order =
     (let n_cols = length key_order
      in if n_cols = 0 then Inl ZeroDivisionError
         else
           (let n_rows = ceil_div (length cipher) n_cols;
                full_cols = length cipher mod n_cols;
                lens = map (\<lambda>i. if i < full_cols then n_rows else n_rows - 1) [0..<n_cols]
            in case slice_columns cipher key_order lens [0..<n_cols] 0 of
                 Inl e \<Rightarrow> Inl e
               | Inr cols \<Rightarrow>
                   Inr (concat (map (\<lambda>r. concat (map (\<lambda>c.
                          if r < length (cols ! c) then [cols ! c ! r] else []) [0..<n_cols]))
                        [0..<n_rows]))))"

section \<open>Auxiliary notions for the transposition proofs\<close>

text \<open>
  These are not part of the program: they name the shape of a grid, the position of the
  \<open>i\<close>-th character in the zigzag fill, and the order in which the two fill loops
  visit the cells.
\<close>

definition wf_grid :: "nat \<Rightarrow> nat \<Rightarrow> 'a list list list \<Rightarrow> bool" where
  "wf_grid R C g \<longleftrightarrow> length g = R \<and> (\<forall>r<R. length (g ! r) = C)"

definition zindex :: "nat \<Rightarrow> nat \<Rightarrow> nat \<Rightarrow> nat" where
  "zindex C r c = r * C + (if even r then c else C - 1 - c)"

definition zpos :: "nat \<Rightarrow> nat \<Rightarrow> nat \<times> nat" where
  "zpos C i = (i div C, if even (i div C) then i mod C else C - 1 - i mod C)"

definition cell_of :: "'a list \<Rightarrow> nat \<Rightarrow> 'a list" where
  "cell_of s i = (if i < length s then [s ! i] else [])"

definition zigzag_positions :: "nat \<Rightarrow> nat \<Rightarrow> (nat \<times> nat) list" where
  "zigzag_positions C k =
     concat (map (\<lambda>r. map (Pair r) (direction_cols (if even r then 1 else - 1) C)) [0..<k])"

definition column_positions :: "(nat \<Rightarrow> nat) \<Rightarrow> nat list \<Rightarrow> (nat \<times> nat) list" where
  "column_positions lens order = concat (map (\<lambda>c. map (\<lambda>r. (r, c)) [0..<lens c]) order)"

text \<open>
  The letters \<open>A\<close> to \<open>Z\<close>, and the numeric shift \<open>ord(k) - ord('A')\<close> of the key
  letter at a position.
\<close>

definition is_upper :: "char \<Rightarrow> bool" where
  "is_upper c \<longleftrightarrow> 65 \<le> ord c \<and> ord c \<le> 90"

definition key_shift :: "string \<Rightarrow> nat \<Rightarrow> nat" where
  "key_shift key p = nat (ord (key ! p) - 65)"

section \<open>Key validation at construction\<close>

text \<open>
  C8. Construction raises the invalid-key error (\<open>ValueError\<close>) if and only if the
  substitution key is not exactly 26 distinct symbols, or the Vigenere key is shorter
  than 10, or the transposition key has fewer than 3 elements; and a cipher object (the
  only value \<open>encrypt\<close> and \<open>decrypt\<close> can be applied to) is produced exactly in
  the opposite case, so nothing is transformed when the keys are rejected.
\<close>

theorem init_raises_iff:
  "((\<exists>msg. mlcc_init sk vk tk = Inl (ValueError msg)) \<longleftrightarrow>
      (\<not> (length sk = 26 \<and> distinct sk) \<or> length vk < 10 \<or> length tk < 3)) \<and>
   ((\<exists>c. mlcc_init sk vk tk = Inr c) \<longleftrightarrow>
      (length sk = 26 \<and> distinct sk \<and> 10 \<le> length vk \<and> 3 \<le> length tk))"
  by (auto simp: mlcc_init_def distinct_card card_distinct)

theorem init_raises_iff_witness:
  "(\<exists>msg. mlcc_init ''ABCDEFGHIJKLMNOPQRSTUVWXYA'' ''KEYKEYKEYK'' [3, 1, 2] = Inl (ValueError msg)) \<and>
   (\<exists>c. mlcc_init ''ZYXWVUTSRQPONMLKJIHGFEDCBA'' ''KEYKEYKEYK'' [3, 1, 2] = Inr c)"
  using init_raises_iff [of "''ABCDEFGHIJKLMNOPQRSTUVWXYA''" "''KEYKEYKEYK''" "[3, 1, 2]"]
        init_raises_iff [of "''ZYXWVUTSRQPONMLKJIHGFEDCBA''" "''KEYKEYKEYK''" "[3, 1, 2]"]
  by simp

section \<open>The key index of the Vigenere stage\<close>

lemma key_rotation_at_closed: "0 < K \<Longrightarrow> key_rotation_at K i = (i div 5) mod K"
proof (induction i)
  case 0
  then show ?case by simp
next
  case (Suc j)
  have d: "Suc j div 5 = (if (j + 1) mod 5 = 0 then j div 5 + 1 else j div 5)"
    by (simp add: div_Suc)
  show ?case using Suc by (simp add: d mod_Suc_eq del: div_Suc)
qed

lemma effective_index_aux: "0 < K \<Longrightarrow> effective_key_index K i = pos_to_key_index i K"
  by (simp add: effective_key_index_def pos_to_key_index_def key_rotation_at_closed
        mod_add_right_eq)

text \<open>
  The loops of the pipeline are in the state \<open>key_rotation_at K i\<close> when they reach
  position \<open>i\<close>, so the key letter they read there is the one at \<open>effective_key_index\<close>.
\<close>

lemma vigenere_encrypt_loop_nth:
  "0 < length key \<Longrightarrow> j < length cs \<Longrightarrow>
   vigenere_encrypt_loop key i (key_rotation_at (length key) i) cs ! j =
     encrypted_char (cs ! j)
       (ord (key ! effective_key_index (length key) (i + j)) - 65)
       (int ((i + j) mod 5) + 1)"
proof (induction cs arbitrary: i j)
  case Nil
  then show ?case by simp
next
  case (Cons c cs)
  have step: "(if (i + 1) mod 5 = 0 then (key_rotation_at (length key) i + 1) mod length key
               else key_rotation_at (length key) i) = key_rotation_at (length key) (i + 1)"
    by simp
  show ?case
  proof (cases j)
    case 0
    then show ?thesis by (simp add: Let_def effective_key_index_def)
  next
    case (Suc j')
    with Cons.prems have "j' < length cs" by simp
    from Cons.IH[OF Cons.prems(1) this, of "i + 1"] Suc
    show ?thesis
      unfolding vigenere_encrypt_loop.simps Let_def step by simp
  qed
qed

lemma vigenere_decrypt_loop_nth:
  "0 < length key \<Longrightarrow> j < length cs \<Longrightarrow>
   vigenere_decrypt_loop key i (key_rotation_at (length key) i) cs ! j =
     decrypted_char (cs ! j)
       (ord (key ! effective_key_index (length key) (i + j)) - 65)
       (int ((i + j) mod 5) + 1)"
proof (induction cs arbitrary: i j)
  case Nil
  then show ?case by simp
next
  case (Cons c cs)
  have step: "(if (i + 1) mod 5 = 0 then (key_rotation_at (length key) i + 1) mod length key
               else key_rotation_at (length key) i) = key_rotation_at (length key) (i + 1)"
    by simp
  show ?case
  proof (cases j)
    case 0
    then show ?thesis by (simp add: Let_def effective_key_index_def)
  next
    case (Suc j')
    with Cons.prems have "j' < length cs" by simp
    from Cons.IH[OF Cons.prems(1) this, of "i + 1"] Suc
    show ?thesis
      unfolding vigenere_decrypt_loop.simps Let_def step by simp
  qed
qed

lemma length_vigenere_encrypt_loop [simp]:
  "length (vigenere_encrypt_loop key i rot cs) = length cs"
  by (induction cs arbitrary: i rot) (simp_all add: Let_def)

lemma length_vigenere_decrypt_loop [simp]:
  "length (vigenere_decrypt_loop key i rot cs) = length cs"
  by (induction cs arbitrary: i rot) (simp_all add: Let_def)

lemma vigenere_encrypt_nth:
  "0 < length key \<Longrightarrow> i < length s \<Longrightarrow>
   vigenere_encrypt key s ! i =
     encrypted_char (s ! i) (ord (key ! effective_key_index (length key) i) - 65)
       (int (i mod 5) + 1)"
  using vigenere_encrypt_loop_nth [of key i s 0] by (simp add: vigenere_encrypt_def)

lemma vigenere_decrypt_nth:
  "0 < length key \<Longrightarrow> i < length s \<Longrightarrow>
   vigenere_decrypt key s ! i =
     decrypted_char (s ! i) (ord (key ! effective_key_index (length key) i) - 65)
       (int (i mod 5) + 1)"
  using vigenere_decrypt_loop_nth [of key i s 0] by (simp add: vigenere_decrypt_def)

text \<open>
  C4. For every position \<open>i\<close> and every key length \<open>K \<ge> 1\<close>, the key index the
  pipeline's Vigenere loop uses at position \<open>i\<close>, \<open>(i + key_rotation) mod K\<close> with
  \<open>key_rotation\<close> advanced (mod \<open>K\<close>) after every fifth character, is the closed
  form \<open>(i + i div 5) mod K\<close> of the key recoverer's \<open>pos_to_key_index\<close>; so the
  encrypt and decrypt loops read, at every position of every text, the key letter that
  the recoverer addresses, with the recoverer's modifier.
\<close>

theorem effective_index_closed_form:
  assumes "0 < K"
  shows "effective_key_index K i = pos_to_key_index i K \<and>
         (\<forall>key s. length key = K \<and> i < length s \<longrightarrow>
            vigenere_encrypt key s ! i =
              encrypted_char (s ! i) (ord (key ! pos_to_key_index i K) - 65)
                (int (modifier_for_pos i)) \<and>
            vigenere_decrypt key s ! i =
              decrypted_char (s ! i) (ord (key ! pos_to_key_index i K) - 65)
                (int (modifier_for_pos i)))"
proof -
  have idx: "effective_key_index K i = pos_to_key_index i K"
    using assms by (rule effective_index_aux)
  have md: "int (i mod 5) + 1 = int (modifier_for_pos i)"
    by (simp add: modifier_for_pos_def)
  have "vigenere_encrypt key s ! i =
          encrypted_char (s ! i) (ord (key ! pos_to_key_index i K) - 65)
            (int (modifier_for_pos i)) \<and>
        vigenere_decrypt key s ! i =
          decrypted_char (s ! i) (ord (key ! pos_to_key_index i K) - 65)
            (int (modifier_for_pos i))"
    if "length key = K" "i < length s" for key s
    using vigenere_encrypt_nth[of key i s] vigenere_decrypt_nth[of key i s] that assms
    by (simp only: idx md)
  with idx show ?thesis by blast
qed

theorem effective_index_closed_form_witness:
  "0 < (10::nat) \<and> effective_key_index 10 27 = pos_to_key_index 27 10 \<and>
   pos_to_key_index 27 10 = 2 \<and>
   vigenere_encrypt ''KEYKEYKEYK'' ''SVOOLDLIOW'' ! 7 =
     encrypted_char (''SVOOLDLIOW'' ! 7) (ord (''KEYKEYKEYK'' ! pos_to_key_index 7 10) - 65)
       (int (modifier_for_pos 7))"
proof -
  have h: "0 < (10::nat)" by simp
  have l: "length ''KEYKEYKEYK'' = 10 \<and> 7 < length ''SVOOLDLIOW''" by simp
  have p: "pos_to_key_index 27 10 = 2" by (simp add: pos_to_key_index_def)
  from effective_index_closed_form [OF h, of 27] have a: "effective_key_index 10 27 = pos_to_key_index 27 10"
    by blast
  from effective_index_closed_form [OF h, of 7] l
  have b: "vigenere_encrypt ''KEYKEYKEYK'' ''SVOOLDLIOW'' ! 7 =
     encrypted_char (''SVOOLDLIOW'' ! 7) (ord (''KEYKEYKEYK'' ! pos_to_key_index 7 10) - 65)
       (int (modifier_for_pos 7))"
    by blast
  from h a p b show ?thesis by blast
qed

section \<open>The transposition stage is inverted by decrypt\<close>

subsection \<open>Filling a grid cell by cell\<close>

lemma wf_empty_grid: "wf_grid R C (empty_grid R C)"
  by (simp add: wf_grid_def empty_grid_def)

lemma empty_grid_nth: "r < R \<Longrightarrow> c < C \<Longrightarrow> empty_grid R C ! r ! c = []"
  by (simp add: empty_grid_def)

lemma wf_set_cell:
  assumes "wf_grid R C g"
  shows "wf_grid R C (set_cell g r c v)"
proof -
  have "length (set_cell g r c v ! r') = C" if "r' < R" for r'
    using that assms by (cases "r' = r") (simp_all add: wf_grid_def set_cell_def)
  then show ?thesis using assms by (simp add: wf_grid_def set_cell_def)
qed

lemma set_cell_same:
  "wf_grid R C g \<Longrightarrow> r < R \<Longrightarrow> c < C \<Longrightarrow> set_cell g r c v ! r ! c = v"
  by (simp add: wf_grid_def set_cell_def)

lemma set_cell_other:
  "(r', c') \<noteq> (r, c) \<Longrightarrow> set_cell g r c v ! r' ! c' = g ! r' ! c'"
  by (cases "r < length g") (auto simp: set_cell_def nth_list_update list_update_beyond)

lemma put_cell_lt:
  "idx < length txt \<Longrightarrow> put_cell txt r c (g, idx) = (set_cell g r c [txt ! idx], idx + 1)"
  by (simp add: put_cell_def)

lemma put_cell_ge: "length txt \<le> idx \<Longrightarrow> put_cell txt r c (g, idx) = (g, idx)"
  by (simp add: put_cell_def)

lemma fold_put_stop:
  "length txt \<le> idx \<Longrightarrow> fold (case_prod (put_cell txt)) ps (g, idx) = (g, idx)"
  by (induction ps) (auto simp: put_cell_ge)

lemma fold_put_cells:
  assumes "fold (case_prod (put_cell txt)) ps (g, idx) = (g', idx')"
    and "wf_grid R C g" and "distinct ps"
    and "\<forall>p\<in>set ps. fst p < R \<and> snd p < C"
    and "idx + length ps \<le> length txt"
  shows "idx' = idx + length ps \<and> wf_grid R C g' \<and>
         (\<forall>j<length ps. g' ! fst (ps ! j) ! snd (ps ! j) = [txt ! (idx + j)]) \<and>
         (\<forall>r c. (r, c) \<notin> set ps \<longrightarrow> g' ! r ! c = g ! r ! c)"
  using assms
proof (induction ps arbitrary: g idx)
  case Nil
  then show ?case by simp
next
  case (Cons p ps)
  obtain r0 c0 where p: "p = (r0, c0)" by (cases p)
  let ?g1 = "set_cell g r0 c0 [txt ! idx]"
  from Cons.prems(5) have lt: "idx < length txt" by simp
  from Cons.prems(4) p have rng: "r0 < R" "c0 < C" by auto
  have f: "fold (case_prod (put_cell txt)) ps (?g1, idx + 1) = (g', idx')"
    using Cons.prems(1) lt by (simp add: p put_cell_lt)
  have wf1: "wf_grid R C ?g1" using Cons.prems(2) by (rule wf_set_cell)
  have IH: "idx' = idx + 1 + length ps \<and> wf_grid R C g' \<and>
         (\<forall>j<length ps. g' ! fst (ps ! j) ! snd (ps ! j) = [txt ! (idx + 1 + j)]) \<and>
         (\<forall>r c. (r, c) \<notin> set ps \<longrightarrow> g' ! r ! c = ?g1 ! r ! c)"
    using Cons.IH[OF f wf1] Cons.prems(3,4,5) by simp
  have notin: "(r0, c0) \<notin> set ps" using Cons.prems(3) p by simp
  have a: "g' ! r0 ! c0 = [txt ! idx]"
    using IH notin set_cell_same[OF Cons.prems(2) rng] by simp
  have b: "\<forall>j<length (p # ps). g' ! fst ((p # ps) ! j) ! snd ((p # ps) ! j) = [txt ! (idx + j)]"
  proof (intro allI impI)
    fix j assume "j < length (p # ps)"
    then show "g' ! fst ((p # ps) ! j) ! snd ((p # ps) ! j) = [txt ! (idx + j)]"
      using a IH p by (cases j) auto
  qed
  have c: "\<forall>r c. (r, c) \<notin> set (p # ps) \<longrightarrow> g' ! r ! c = g ! r ! c"
    using IH p set_cell_other[of _ _ r0 c0 g] by auto
  from IH b c show ?case by simp
qed

lemma direction_cols_length [simp]: "length (direction_cols d C) = C"
  by (simp add: direction_cols_def)

lemma direction_cols_nth:
  "j < C \<Longrightarrow> direction_cols d C ! j = (if d = 1 then j else C - 1 - j)"
  by (simp add: direction_cols_def rev_nth)

lemma zigzag_positions_Suc:
  "zigzag_positions C (Suc k) =
     zigzag_positions C k @ map (Pair k) (direction_cols (if even k then 1 else - 1) C)"
  by (simp add: zigzag_positions_def)

lemma zigzag_positions_length [simp]: "length (zigzag_positions C k) = k * C"
  by (induction k) (simp_all add: zigzag_positions_Suc, simp add: zigzag_positions_def)

lemma zigzag_positions_nth:
  "i < k * C \<Longrightarrow> zigzag_positions C k ! i = zpos C i"
proof (induction k)
  case 0
  then show ?case by simp
next
  case (Suc k)
  show ?case
  proof (cases "i < k * C")
    case True
    then show ?thesis using Suc.IH by (simp add: zigzag_positions_Suc nth_append)
  next
    case False
    define j where "j = i - k * C"
    have i: "i = k * C + j" using False by (simp add: j_def)
    have j: "j < C" using Suc.prems i by simp
    have d: "i div C = k" "i mod C = j" using i j by simp_all
    have "zigzag_positions C (Suc k) ! i =
            (k, direction_cols (if even k then 1 else - 1) C ! j)"
      using False j by (simp add: zigzag_positions_Suc nth_append j_def)
    also have "\<dots> = zpos C i"
      using j by (simp add: direction_cols_nth zpos_def d)
    finally show ?thesis .
  qed
qed

lemma zigzag_positions_eq: "zigzag_positions C k = map (zpos C) [0..<k * C]"
  by (rule nth_equalityI) (simp_all add: zigzag_positions_nth)

lemma zindex_zpos: "0 < C \<Longrightarrow> zindex C (fst (zpos C i)) (snd (zpos C i)) = i"
proof -
  assume C: "0 < C"
  then have m: "i mod C < C" by simp
  have "i div C * C + i mod C = i" by simp
  moreover have "C - 1 - (C - 1 - i mod C) = i mod C" using m by simp
  ultimately show ?thesis by (simp add: zindex_def zpos_def)
qed

lemma zpos_zindex: "c < C \<Longrightarrow> zpos C (zindex C r c) = (r, c)"
proof (cases "even r")
  case True
  assume c: "c < C"
  have "(r * C + c) div C = r" "(r * C + c) mod C = c" using c by simp_all
  then show ?thesis using True by (simp add: zindex_def zpos_def)
next
  case False
  assume c: "c < C"
  define d where "d = C - 1 - c"
  have d: "d < C" "C - 1 - d = c" using c by (simp_all add: d_def)
  have "(r * C + d) div C = r" "(r * C + d) mod C = d" using d by simp_all
  then have "zpos C (r * C + d) = (r, c)" using False d by (simp add: zpos_def)
  moreover have "zindex C r c = r * C + d" using False by (simp add: zindex_def d_def)
  ultimately show ?thesis by simp
qed

lemma zindex_less: "c < C \<Longrightarrow> r < R \<Longrightarrow> zindex C r c < R * C"
proof -
  assume c: "c < C" and r: "r < R"
  have "zindex C r c < r * C + C" using c by (simp add: zindex_def)
  also have "\<dots> = Suc r * C" by simp
  also have "\<dots> \<le> R * C" using r by (intro mult_le_mono1) simp
  finally show ?thesis .
qed

lemma zpos_range: "0 < C \<Longrightarrow> i < R * C \<Longrightarrow> fst (zpos C i) < R \<and> snd (zpos C i) < C"
proof -
  assume C: "0 < C" and i: "i < R * C"
  have "i div C < R" using i C by (simp add: less_mult_imp_div_less)
  moreover have "i mod C < C" using C by simp
  ultimately show ?thesis by (auto simp: zpos_def)
qed

lemma inj_zpos: "0 < C \<Longrightarrow> inj (zpos C)"
proof (rule injI)
  fix i j assume C: "0 < C" and e: "zpos C i = zpos C j"
  have "zindex C (fst (zpos C i)) (snd (zpos C i)) = zindex C (fst (zpos C j)) (snd (zpos C j))"
    by (simp only: e)
  then show "i = j" by (simp only: zindex_zpos[OF C])
qed

lemma distinct_zigzag_positions: "0 < C \<Longrightarrow> distinct (zigzag_positions C k)"
proof -
  assume C: "0 < C"
  have "inj_on (zpos C) (set [0..<k * C])"
    using inj_zpos[OF C] by (rule inj_on_subset) simp
  then show ?thesis by (simp add: zigzag_positions_eq distinct_map)
qed

lemma fill_row_fold:
  "fold (fill_row txt C) [0..<k] (g, idx, 1) =
     (case fold (case_prod (put_cell txt)) (zigzag_positions C k) (g, idx) of
        (g', idx') \<Rightarrow> (g', idx', if even k then 1 else - 1))"
proof (induction k)
  case 0
  then show ?case by (simp add: zigzag_positions_def)
next
  case (Suc k)
  obtain g' idx' where f: "fold (case_prod (put_cell txt)) (zigzag_positions C k) (g, idx) = (g', idx')"
    by (cases "fold (case_prod (put_cell txt)) (zigzag_positions C k) (g, idx)")
  have inner: "fold (put_cell txt k) cols st = fold (case_prod (put_cell txt)) (map (Pair k) cols) st"
    for cols st
    by (simp add: fold_map o_def)
  show ?case
    using Suc.IH f
    by (simp add: zigzag_positions_Suc fill_row_def inner split: prod.splits)
qed

lemma cell_of_ge [simp]: "length s \<le> i \<Longrightarrow> cell_of s i = []"
  by (simp add: cell_of_def)

lemma cell_of_lt [simp]: "i < length s \<Longrightarrow> cell_of s i = [s ! i]"
  by (simp add: cell_of_def)

lemma zigzag_fill_cells:
  assumes C: "0 < C" and L: "length s \<le> R * C" and r: "r < R" and c: "c < C"
  shows "zigzag_fill s C R ! r ! c = cell_of s (zindex C r c)"
proof -
  let ?zz = "zigzag_positions C R"
  let ?L = "length s"
  let ?put = "case_prod (put_cell s)"
  obtain g1 i1 where f1: "fold ?put (take ?L ?zz) (empty_grid R C, 0) = (g1, i1)"
    by (cases "fold ?put (take ?L ?zz) (empty_grid R C, 0)")
  have len: "length (take ?L ?zz) = ?L" using L by simp
  have rng: "\<forall>p\<in>set (take ?L ?zz). fst p < R \<and> snd p < C"
  proof
    fix p assume "p \<in> set (take ?L ?zz)"
    then have "p \<in> set ?zz" by (rule in_set_takeD)
    then obtain i where "i < R * C" "p = zpos C i"
      by (auto simp: zigzag_positions_eq)
    then show "fst p < R \<and> snd p < C" using zpos_range[OF C] by simp
  qed
  have props: "i1 = ?L \<and> wf_grid R C g1 \<and>
         (\<forall>j<?L. g1 ! fst (take ?L ?zz ! j) ! snd (take ?L ?zz ! j) = [s ! j]) \<and>
         (\<forall>r c. (r, c) \<notin> set (take ?L ?zz) \<longrightarrow> g1 ! r ! c = empty_grid R C ! r ! c)"
    using fold_put_cells[OF f1 wf_empty_grid _ rng] distinct_zigzag_positions[OF C, of R] len
    by simp
  have "fold ?put ?zz (empty_grid R C, 0) = fold ?put (drop ?L ?zz) (g1, i1)"
    using f1 fold_append[of ?put "take ?L ?zz" "drop ?L ?zz"] by simp
  also have "\<dots> = (g1, i1)" using props by (simp add: fold_put_stop)
  finally have "zigzag_fill s C R = g1"
    by (simp add: zigzag_fill_def fill_row_fold)
  moreover have "g1 ! r ! c = cell_of s (zindex C r c)"
  proof (cases "zindex C r c < ?L")
    case True
    have "take ?L ?zz ! zindex C r c = (r, c)"
      using True L zpos_zindex[OF c] by (simp add: zigzag_positions_nth)
    with props True show ?thesis by auto
  next
    case False
    have "(r, c) \<notin> set (take ?L ?zz)"
    proof
      assume "(r, c) \<in> set (take ?L ?zz)"
      then obtain j where j: "j < ?L" "take ?L ?zz ! j = (r, c)"
        by (auto simp: in_set_conv_nth)
      then have "zpos C j = (r, c)" using L by (simp add: zigzag_positions_nth)
      then have "zindex C r c = j" using zindex_zpos[OF C, of j] by simp
      with j False show False by simp
    qed
    with props False r c show ?thesis by (simp add: empty_grid_nth)
  qed
  ultimately show ?thesis by simp
qed

lemma fold_append_cell:
  "fold (\<lambda>row. append_cell g row col) rows out = out @ concat (map (\<lambda>row. g ! row ! col) rows)"
  by (induction rows arbitrary: out) (simp_all add: append_cell_def)

lemma fold_append_cell_row:
  "fold (append_cell g row) cols out = out @ concat (map (\<lambda>col. g ! row ! col) cols)"
  by (induction cols arbitrary: out) (simp_all add: append_cell_def)

lemma read_columns_concat:
  "read_columns g R order = concat (map (\<lambda>col. concat (map (\<lambda>row. g ! row ! col) [0..<R])) order)"
proof -
  have "fold (\<lambda>col out. fold (\<lambda>row. append_cell g row col) [0..<R] out) order out =
          out @ concat (map (\<lambda>col. concat (map (\<lambda>row. g ! row ! col) [0..<R])) order)" for out
    by (induction order arbitrary: out) (simp_all add: fold_append_cell)
  then show ?thesis by (simp add: read_columns_def)
qed

lemma ceil_div_bounds:
  assumes "0 < C"
  shows "L \<le> ceil_div L C * C" and "0 < L \<Longrightarrow> (ceil_div L C - 1) * C < L"
    and "0 < L \<Longrightarrow> 0 < ceil_div L C" and "L = 0 \<Longrightarrow> ceil_div L C = 0"
proof -
  define q where "q = (L + C - 1) div C"
  define m where "m = (L + C - 1) mod C"
  have cd: "ceil_div L C = q" by (simp add: ceil_div_def q_def)
  have e: "q * C + m = L + C - 1" unfolding q_def m_def by (rule div_mult_mod_eq)
  have m: "m < C" using assms by (simp add: m_def)
  show "L \<le> ceil_div L C * C" unfolding cd using e m by linarith
  show "L = 0 \<Longrightarrow> ceil_div L C = 0" using assms by (simp add: ceil_div_def)
  have q: "0 < q" if "0 < L"
  proof (rule ccontr)
    assume "\<not> 0 < q"
    then have "q = 0" by simp
    then have "m = L + C - 1" using e by (simp only: mult_0 add_0)
    with m that show False by simp
  qed
  then show "0 < L \<Longrightarrow> 0 < ceil_div L C" unfolding cd .
  show "(ceil_div L C - 1) * C < L" if L: "0 < L"
  proof -
    have "(q - 1) * C + C = q * C" using q[OF L] by (cases q) simp_all
    then have "(q - 1) * C + C + m = L + C - 1" using e by simp
    then have "(q - 1) * C < L" using L assms by linarith
    then show ?thesis unfolding cd .
  qed
qed

lemma short_columns_mem:
  assumes c: "c < C" and R: "R = Suc r" and e: "R * C - L = e" and eC: "e \<le> C"
  shows "c \<in> set (short_columns C R L) \<longleftrightarrow> (if even r then C - e \<le> c else c < e)"
proof -
  have par: "((int R - 1) mod 2 = 0) = even r" unfolding R by presburger
  show ?thesis
    using c eC by (auto simp: short_columns_def Let_def e par)
qed

lemma zindex_lt_iff:
  assumes C: "0 < C" and c: "c < C" and r: "r < ceil_div L C"
  shows "zindex C r c < L \<longleftrightarrow>
         r < col_lengths (short_columns C (ceil_div L C) L) (ceil_div L C) c"
proof -
  define R where "R = ceil_div L C"
  define m where "m = (R - 1) * C"
  have L: "0 < L" using r ceil_div_bounds(4)[OF C, of L] by (cases "L = 0") simp_all
  have R: "0 < R" using r by (simp add: R_def)
  have m: "m < L" using ceil_div_bounds(2)[OF C L] by (simp add: m_def R_def)
  have RC: "R * C = m + C" using R by (cases R) (simp_all add: m_def)
  have up: "L \<le> m + C" using ceil_div_bounds(1)[OF C, of L] RC by (simp add: R_def)
  show ?thesis
  proof (cases "Suc r = R")
    case True
    define e where "e = m + C - L"
    have e: "R * C - L = e" "e \<le> C" using m up by (simp_all add: e_def RC)
    have mem: "c \<in> set (short_columns C R L) \<longleftrightarrow> (if even r then C - e \<le> c else c < e)"
      using short_columns_mem[OF c True[symmetric] e] .
    have rm: "r * C = m" using True by (auto simp: m_def)
    have z: "zindex C r c = m + (if even r then c else C - 1 - c)"
      by (simp add: zindex_def rm)
    have rhs: "r < col_lengths (short_columns C R L) R c \<longleftrightarrow> c \<notin> set (short_columns C R L)"
      using True by (auto simp: col_lengths_def)
    have "zindex C r c < L \<longleftrightarrow> \<not> (if even r then C - e \<le> c else c < e)"
      unfolding z e_def using c m up by (cases "even r") auto
    then show ?thesis unfolding R_def[symmetric] rhs mem by simp
  next
    case False
    then have r2: "Suc r \<le> R - 1" using r by (simp add: R_def)
    have "zindex C r c < r * C + C" using c by (simp add: zindex_def)
    also have "\<dots> = Suc r * C" by simp
    also have "\<dots> \<le> m" unfolding m_def using r2 by (rule mult_le_mono1)
    finally have "zindex C r c < L" using m by simp
    moreover have "r < col_lengths (short_columns C R L) R c"
      using r2 by (auto simp: col_lengths_def)
    ultimately show ?thesis by (simp add: R_def)
  qed
qed

lemma col_lengths_le: "col_lengths sh R c \<le> R"
  by (simp add: col_lengths_def)

lemma concat_prefix_cells:
  "n \<le> R \<Longrightarrow> concat (map (\<lambda>r. if r < n then [f r] else []) [0..<R]) = map f [0..<n]"
proof (induction R)
  case 0
  then show ?case by simp
next
  case (Suc R)
  show ?case
  proof (cases "n = Suc R")
    case True
    have "concat (map (\<lambda>r. if r < n then [f r] else []) [0..<R]) =
          concat (map (\<lambda>r. [f r]) [0..<R])"
      using True by (intro arg_cong[where f=concat] map_cong) simp_all
    then show ?thesis using True by simp
  next
    case False
    with Suc show ?thesis by simp
  qed
qed

lemma set_column_order [simp]: "set (column_order tk) = {..<length tk}"
  by (auto simp: column_order_def)

lemma distinct_column_order [simp]: "distinct (column_order tk)"
  by (simp add: column_order_def)

lemma set_column_positions:
  "set (column_positions lens order) = {(r, c). c \<in> set order \<and> r < lens c}"
  by (auto simp: column_positions_def)

lemma distinct_column_positions:
  "distinct order \<Longrightarrow> distinct (column_positions lens order)"
proof (induction order)
  case Nil
  then show ?case by (simp add: column_positions_def)
next
  case (Cons c cs)
  have split: "column_positions lens (c # cs) =
                 map (\<lambda>r. (r, c)) [0..<lens c] @ column_positions lens cs"
    by (simp add: column_positions_def)
  have "distinct (map (\<lambda>r. (r, c)) [0..<lens c])"
    by (simp add: distinct_map inj_on_def)
  moreover have "set (map (\<lambda>r. (r, c)) [0..<lens c]) \<inter> set (column_positions lens cs) = {}"
    using Cons.prems by (auto simp: set_column_positions)
  ultimately show ?case using Cons by (simp add: split)
qed

lemma map_column_positions:
  "map (\<lambda>p. f (fst p) (snd p)) (column_positions lens order) =
     concat (map (\<lambda>c. map (\<lambda>r. f r c) [0..<lens c]) order)"
  by (simp add: column_positions_def map_concat o_def)

lemma transposition_encrypt_formula:
  fixes s :: "'a list"
  assumes C: "0 < length tk"
  defines "R \<equiv> ceil_div (length s) (length tk)"
  defines "lens \<equiv> col_lengths (short_columns (length tk) R (length s)) R"
  shows "transposition_encrypt tk s =
           map (\<lambda>p. s ! zindex (length tk) (fst p) (snd p))
               (column_positions lens (column_order tk))"
proof -
  let ?C = "length tk"
  let ?G = "zigzag_fill s ?C R"
  have LR: "length s \<le> R * ?C" unfolding R_def by (rule ceil_div_bounds(1)[OF C])
  have col: "concat (map (\<lambda>row. ?G ! row ! c) [0..<R]) =
             map (\<lambda>r. s ! zindex ?C r c) [0..<lens c]"
    if c: "c \<in> set (column_order tk)" for c
  proof -
    have c': "c < ?C" using c by simp
    have eq: "map (\<lambda>row. ?G ! row ! c) [0..<R] =
          map (\<lambda>r. if r < lens c then [s ! zindex ?C r c] else []) [0..<R]"
    proof (rule map_cong[OF refl])
      fix r assume "r \<in> set [0..<R]"
      then have r: "r < R" by simp
      have "?G ! r ! c = cell_of s (zindex ?C r c)"
        by (rule zigzag_fill_cells[OF C LR r c'])
      moreover have "zindex ?C r c < length s \<longleftrightarrow> r < lens c"
        unfolding lens_def R_def using r zindex_lt_iff[OF C c'] by (simp add: R_def)
      ultimately show "?G ! r ! c = (if r < lens c then [s ! zindex ?C r c] else [])"
        by (simp add: cell_of_def)
    qed
    have le: "lens c \<le> R" unfolding lens_def by (rule col_lengths_le)
    show ?thesis by (simp only: eq concat_prefix_cells[OF le])
  qed
  have "transposition_encrypt tk s =
          concat (map (\<lambda>c. concat (map (\<lambda>row. ?G ! row ! c) [0..<R])) (column_order tk))"
    by (simp add: transposition_encrypt_def Let_def read_columns_concat R_def)
  also have "\<dots> = concat (map (\<lambda>c. map (\<lambda>r. s ! zindex ?C r c) [0..<lens c]) (column_order tk))"
    by (intro arg_cong[where f=concat] map_cong refl col)
  also have "\<dots> = map (\<lambda>p. s ! zindex ?C (fst p) (snd p)) (column_positions lens (column_order tk))"
    using map_column_positions[of "\<lambda>r c. s ! zindex ?C r c" lens "column_order tk"] by simp
  finally show ?thesis .
qed

lemma column_positions_image:
  fixes L C :: nat
  assumes C: "0 < C"
  defines "R \<equiv> ceil_div L C"
  defines "lens \<equiv> col_lengths (short_columns C R L) R"
  assumes ord: "set order = {..<C}"
  shows "set (column_positions lens order) = zpos C ` {..<L}"
proof (rule set_eqI)
  fix p :: "nat \<times> nat"
  obtain r c where p: "p = (r, c)" by (cases p)
  show "p \<in> set (column_positions lens order) \<longleftrightarrow> p \<in> zpos C ` {..<L}"
  proof
    assume "p \<in> set (column_positions lens order)"
    then have c: "c < C" and r: "r < lens c" using ord p by (auto simp: set_column_positions)
    have "lens c \<le> R" unfolding lens_def by (rule col_lengths_le)
    then have rR: "r < ceil_div L C" using r by (simp add: R_def)
    have "zindex C r c < L" using zindex_lt_iff[OF C c rR] r by (simp add: lens_def R_def)
    moreover have "zpos C (zindex C r c) = p" using zpos_zindex[OF c] p by simp
    ultimately show "p \<in> zpos C ` {..<L}" by (metis imageI lessThan_iff)
  next
    assume "p \<in> zpos C ` {..<L}"
    then obtain i where i: "i < L" "p = zpos C i" by auto
    have "i < R * C" using i ceil_div_bounds(1)[OF C, of L] by (simp add: R_def)
    moreover have zp: "zpos C i = (r, c)" using i p by simp
    ultimately have rng: "r < R" "c < C" using zpos_range[OF C, of i R] by simp_all
    have z: "zindex C r c = i" using zindex_zpos[OF C, of i] zp by simp
    have "r < lens c" using zindex_lt_iff[OF C rng(2), of r L] rng(1) z i
      by (simp add: lens_def R_def)
    then show "p \<in> set (column_positions lens order)"
      using p rng ord by (simp add: set_column_positions)
  qed
qed

lemma length_column_positions:
  assumes C: "0 < C" and ord: "set order = {..<C}" and d: "distinct order"
  shows "length (column_positions
           (col_lengths (short_columns C (ceil_div L C) L) (ceil_div L C)) order) = L"
proof -
  let ?ps = "column_positions (col_lengths (short_columns C (ceil_div L C) L) (ceil_div L C)) order"
  have "length ?ps = card (set ?ps)"
    using distinct_column_positions[OF d] by (simp add: distinct_card)
  also have "\<dots> = card (zpos C ` {..<L})"
    by (simp add: column_positions_image[OF C ord])
  also have "\<dots> = L"
    using inj_zpos[OF C] by (simp add: card_image inj_on_subset)
  finally show ?thesis .
qed

lemma length_transposition_encrypt:
  "0 < length tk \<Longrightarrow> length (transposition_encrypt tk s) = length s"
  by (simp add: transposition_encrypt_formula length_column_positions)

lemma fold_concat_lists: "fold f (concat xss) st = fold (\<lambda>xs. fold f xs) xss st"
  by (induction xss arbitrary: st) simp_all

lemma column_fill_fold:
  "column_fill ct C R order lens =
     fst (fold (case_prod (put_cell ct)) (column_positions lens order) (empty_grid R C, 0))"
proof -
  have "fold (\<lambda>col st. fold (\<lambda>row. put_cell ct row col) [0..<lens col] st) order st =
        fold (case_prod (put_cell ct)) (column_positions lens order) st" for st
    by (induction order arbitrary: st) (simp_all add: column_positions_def fold_map o_def)
  then show ?thesis by (simp add: column_fill_def)
qed

lemma read_row_fold:
  "fold (read_row g C) [0..<k] (out, 1) =
     (out @ concat (map (\<lambda>p. g ! fst p ! snd p) (zigzag_positions C k)),
      if even k then 1 else - 1)"
proof (induction k)
  case 0
  then show ?case by (simp add: zigzag_positions_def)
next
  case (Suc k)
  show ?case
    using Suc.IH
    by (simp add: zigzag_positions_Suc read_row_def fold_append_cell_row o_def)
qed

lemma zigzag_read_concat:
  "zigzag_read g C R = concat (map (\<lambda>p. g ! fst p ! snd p) (zigzag_positions C R))"
  by (simp add: zigzag_read_def read_row_fold)

lemma concat_cells: "length s \<le> n \<Longrightarrow> concat (map (cell_of s) [0..<n]) = s"
proof -
  assume n: "length s \<le> n"
  have "concat (map (cell_of s) [0..<n]) =
        concat (map (\<lambda>i. if i < length s then [s ! i] else []) [0..<n])"
    by (simp add: cell_of_def[abs_def])
  also have "\<dots> = map ((!) s) [0..<length s]"
    by (rule concat_prefix_cells[OF n])
  also have "\<dots> = s" by (rule map_nth)
  finally show ?thesis .
qed

lemma zigzag_read_cells:
  assumes C: "0 < C" and L: "length s \<le> R * C"
    and cells: "\<And>r c. r < R \<Longrightarrow> c < C \<Longrightarrow> g ! r ! c = cell_of s (zindex C r c)"
  shows "zigzag_read g C R = s"
proof -
  have "map (\<lambda>p. g ! fst p ! snd p) (zigzag_positions C R) = map (cell_of s) [0..<R * C]"
    unfolding zigzag_positions_eq map_map
  proof (rule map_cong[OF refl])
    fix i assume "i \<in> set [0..<R * C]"
    then have i: "i < R * C" by simp
    have "g ! fst (zpos C i) ! snd (zpos C i) =
          cell_of s (zindex C (fst (zpos C i)) (snd (zpos C i)))"
      using zpos_range[OF C i] by (intro cells) simp_all
    then show "((\<lambda>p. g ! fst p ! snd p) \<circ> zpos C) i = cell_of s i"
      by (simp add: zindex_zpos[OF C])
  qed
  then show ?thesis by (simp only: zigzag_read_concat concat_cells[OF L])
qed

lemma column_fill_cells:
  fixes s :: "'a list"
  assumes C: "0 < C" and ord: "set order = {..<C}" and d: "distinct order"
  defines "R \<equiv> ceil_div (length s) C"
  defines "lens \<equiv> col_lengths (short_columns C R (length s)) R"
  defines "ps \<equiv> column_positions lens order"
  assumes ct: "ct = map (\<lambda>p. s ! zindex C (fst p) (snd p)) ps"
    and r: "r < R" and c: "c < C"
  shows "column_fill ct C R order lens ! r ! c = cell_of s (zindex C r c)"
proof -
  let ?put = "case_prod (put_cell ct)"
  obtain g' i' where f: "fold ?put ps (empty_grid R C, 0) = (g', i')"
    by (cases "fold ?put ps (empty_grid R C, 0)")
  have img: "set ps = zpos C ` {..<length s}"
    unfolding ps_def lens_def R_def by (rule column_positions_image[OF C ord])
  have dps: "distinct ps" unfolding ps_def by (rule distinct_column_positions[OF d])
  have rng: "\<forall>p\<in>set ps. fst p < R \<and> snd p < C"
  proof
    fix p assume "p \<in> set ps"
    then obtain i where i: "i < length s" "p = zpos C i" using img by auto
    have "i < R * C" using i ceil_div_bounds(1)[OF C, of "length s"] by (simp add: R_def)
    then show "fst p < R \<and> snd p < C" using zpos_range[OF C] i by simp
  qed
  have len: "0 + length ps \<le> length ct" by (simp add: ct)
  have props: "(\<forall>j<length ps. g' ! fst (ps ! j) ! snd (ps ! j) = [ct ! (0 + j)]) \<and>
         (\<forall>r c. (r, c) \<notin> set ps \<longrightarrow> g' ! r ! c = empty_grid R C ! r ! c)"
    using fold_put_cells[OF f wf_empty_grid dps rng len] by simp
  have g: "column_fill ct C R order lens = g'"
    by (simp add: column_fill_fold ps_def[symmetric] f)
  have "g' ! r ! c = cell_of s (zindex C r c)"
  proof (cases "(r, c) \<in> set ps")
    case True
    then obtain j where j: "j < length ps" "ps ! j = (r, c)" by (auto simp: in_set_conv_nth)
    from True obtain i where i: "i < length s" "zpos C i = (r, c)" using img by auto
    have z: "zindex C r c = i" using zindex_zpos[OF C, of i] i by simp
    have "g' ! r ! c = [ct ! j]" using props j by force
    also have "ct ! j = s ! zindex C r c" using j by (simp add: ct)
    finally show ?thesis using z i by simp
  next
    case False
    have "\<not> zindex C r c < length s"
    proof
      assume "zindex C r c < length s"
      then have "zpos C (zindex C r c) \<in> set ps" using img by blast
      then show False using False zpos_zindex[OF c] by simp
    qed
    moreover have "g' ! r ! c = []" using props False r c by (simp add: empty_grid_nth)
    ultimately show ?thesis by simp
  qed
  then show ?thesis by (simp only: g)
qed

text \<open>The round trip of the transposition stage, for any non-empty key.\<close>

lemma transposition_inverse:
  fixes s :: "'a list"
  assumes C: "0 < length tk"
  shows "transposition_decrypt tk (transposition_encrypt tk s) = s"
proof -
  let ?C = "length tk"
  let ?R = "ceil_div (length s) ?C"
  let ?lens = "col_lengths (short_columns ?C ?R (length s)) ?R"
  let ?ct = "transposition_encrypt tk s"
  have len: "length ?ct = length s" by (rule length_transposition_encrypt[OF C])
  have ct: "?ct = map (\<lambda>p. s ! zindex ?C (fst p) (snd p))
                    (column_positions ?lens (column_order tk))"
    by (rule transposition_encrypt_formula[OF C])
  have cells: "column_fill ?ct ?C ?R (column_order tk) ?lens ! r ! c = cell_of s (zindex ?C r c)"
    if "r < ?R" "c < ?C" for r c
    by (rule column_fill_cells[OF C set_column_order distinct_column_order ct that])
  have LR: "length s \<le> ?R * ?C" by (rule ceil_div_bounds(1)[OF C])
  have "zigzag_read (column_fill ?ct ?C ?R (column_order tk) ?lens) ?C ?R = s"
    using C LR cells by (rule zigzag_read_cells)
  then show ?thesis unfolding transposition_decrypt_def Let_def len .
qed

text \<open>
  C2. For every transposition key of length at least 3 and every text, whatever its length
  (a multiple of the number of columns, equal to it, or smaller), the decrypt-side
  reconstruction (short columns chosen by the parity of the last row index, the grid
  filled in column order with those lengths, rows read back in zigzag direction) returns
  the text that the encrypt-side zigzag fill and column read-out started from.
\<close>

theorem transposition_round_trip:
  fixes s :: "'a list"
  assumes "3 \<le> length tk"
  shows "transposition_decrypt tk (transposition_encrypt tk s) = s"
proof -
  have "0 < length tk" using assms by auto
  then show ?thesis by (rule transposition_inverse)
qed

theorem transposition_round_trip_witness:
  "3 \<le> length [3, 1, 2 :: int] \<and>
   transposition_encrypt [3, 1, 2] ''ABCDEFGHIJ'' = ''BEHCDIJAFG'' \<and>
   transposition_decrypt [3, 1, 2] (transposition_encrypt [3, 1, 2] ''ABCDEFGHIJ'') = ''ABCDEFGHIJ'' \<and>
   transposition_decrypt [3, 1, 2] (transposition_encrypt [3, 1, 2] ''ABCDEF'') = ''ABCDEF'' \<and>
   transposition_decrypt [3, 1, 2] (transposition_encrypt [3, 1, 2] ''ABC'') = ''ABC'' \<and>
   transposition_decrypt [3, 1, 2] (transposition_encrypt [3, 1, 2] ''AB'') = ''AB''"
proof -
  have h: "3 \<le> length [3, 1, 2 :: int]" by simp
  have e: "transposition_encrypt [3, 1, 2] ''ABCDEFGHIJ'' = ''BEHCDIJAFG''" by code_simp
  show ?thesis
    using h e transposition_round_trip [OF h, of "''ABCDEFGHIJ''"]
      transposition_round_trip [OF h, of "''ABCDEF''"]
      transposition_round_trip [OF h, of "''ABC''"]
      transposition_round_trip [OF h, of "''AB''"]
    by simp
qed

section \<open>The key recoverer's candidate sets and their enumeration\<close>

lemma alphabet_nth: "n < 26 \<Longrightarrow> standard_alphabet ! n = chr (65 + int n)"
proof -
  have "\<forall>n\<in>set [0..<26]. standard_alphabet ! n = chr (65 + int n)" by code_simp
  then show "n < 26 \<Longrightarrow> standard_alphabet ! n = chr (65 + int n)" by simp
qed

lemma length_standard_alphabet [simp]: "length standard_alphabet = 26"
  by (simp add: standard_alphabet_def)

lemma distinct_standard_alphabet: "distinct standard_alphabet"
  by (simp add: standard_alphabet_def)

lemma INV_ALPHABET_MAP_lt: "n < 26 \<Longrightarrow> INV_ALPHABET_MAP n = Some (standard_alphabet ! n)"
  using map_of_zip_nth[of "[0..<26]" standard_alphabet n]
  by (simp add: INV_ALPHABET_MAP_def)

lemma ALPHABET_MAP_nth: "n < 26 \<Longrightarrow> ALPHABET_MAP (standard_alphabet ! n) = Some n"
  using map_of_zip_nth[of standard_alphabet "[0..<26]" n] distinct_standard_alphabet
  by (simp add: ALPHABET_MAP_def)

lemma ALPHABET_MAP_chr: "n < 26 \<Longrightarrow> ALPHABET_MAP (chr (65 + int n)) = Some n"
  using ALPHABET_MAP_nth[of n] by (simp add: alphabet_nth)

lemma lookup_all_INV:
  "\<forall>x\<in>set combo. x < 26 \<Longrightarrow>
   lookup_all INV_ALPHABET_MAP combo = Inr (map (\<lambda>x. standard_alphabet ! x) combo)"
  by (induction combo) (simp_all add: INV_ALPHABET_MAP_lt)

lemma enumerate_keys_ok:
  "\<forall>combo\<in>set combos. \<forall>x\<in>set combo. x < 26 \<Longrightarrow>
   enumerate_keys combos =
     Inr (map (\<lambda>combo. (combo, map (\<lambda>x. standard_alphabet ! x) combo)) combos)"
  by (induction combos) (simp_all add: lookup_all_INV)

lemma product_lists_elems:
  "combo \<in> set (product_lists xss) \<Longrightarrow> x \<in> set combo \<Longrightarrow> \<exists>xs\<in>set xss. x \<in> set xs"
proof (induction xss arbitrary: combo)
  case Nil
  then show ?case by simp
next
  case (Cons xs xss)
  from Cons.prems(1) obtain y ys where c: "combo = y # ys" "y \<in> set xs" "ys \<in> set (product_lists xss)"
    by auto
  show ?case
  proof (cases "x = y")
    case True
    with c show ?thesis by auto
  next
    case False
    with Cons.prems(2) c have "x \<in> set ys" by simp
    from Cons.IH[OF c(3) this] show ?thesis by auto
  qed
qed

lemma prod_lengths_pos: "\<forall>l\<in>set ls. l \<noteq> [] \<Longrightarrow> 0 < prod_list (map length ls)"
  by (induction ls) simp_all

lemma total_comb_loop_prod:
  assumes "\<forall>l\<in>set ls. l \<noteq> []"
  shows "(int (total_comb_loop mx ls t) \<le> mx \<longleftrightarrow> int (t * prod_list (map length ls)) \<le> mx) \<and>
         (int (t * prod_list (map length ls)) \<le> mx \<longrightarrow>
            total_comb_loop mx ls t = t * prod_list (map length ls))"
  using assms
proof (induction ls arbitrary: t)
  case Nil
  then show ?case by simp
next
  case (Cons l ls)
  have l: "max 1 (length l) = length l" "max (Suc 0) (length l) = length l"
    using Cons.prems by (cases l; simp)+
  have pos: "0 < prod_list (map length ls)" using Cons.prems by (intro prod_lengths_pos) simp
  have ge: "t * length l \<le> t * length l * prod_list (map length ls)" using pos by simp
  show ?case
  proof (cases "int (t * length l) > mx")
    case True
    then have "\<not> int (t * length l * prod_list (map length ls)) \<le> mx" using ge by linarith
    with True show ?thesis by (simp add: l Let_def mult.assoc)
  next
    case False
    from Cons.IH[of "t * length l"] Cons.prems False
    show ?thesis by (simp add: l Let_def mult.assoc)
  qed
qed

lemma chr_ord [simp]: "chr (ord c) = c"
  by (simp add: chr_def ord_def)

lemma ord_chr: "0 \<le> n \<Longrightarrow> n < 256 \<Longrightarrow> ord (chr n) = n"
  by (simp add: chr_def ord_def)

lemma pos_to_key_index_less: "0 < k \<Longrightarrow> pos_to_key_index i k < k"
  by (simp add: pos_to_key_index_def)

lemma derive_loop_step:
  "derive_loop s v k (i # ps) cands =
     (if k = 0 then Inl ZeroDivisionError
      else if length v \<le> i then Inl IndexError
      else if possible_shifts_for_pair (s ! i) (v ! i) (modifier_for_pos i) = [] then Inr None
      else if (cands[pos_to_key_index i k := cands ! pos_to_key_index i k \<inter>
                 set (possible_shifts_for_pair (s ! i) (v ! i) (modifier_for_pos i))])
               ! pos_to_key_index i k = {} then Inr None
      else derive_loop s v k ps
             (cands[pos_to_key_index i k := cands ! pos_to_key_index i k \<inter>
                set (possible_shifts_for_pair (s ! i) (v ! i) (modifier_for_pos i))]))"
  unfolding derive_loop.simps Let_def by (rule refl)

lemma derive_loop_inv:
  "derive_loop s v k ps cands = Inr (Some cands') \<Longrightarrow> length cands = k \<Longrightarrow>
   \<forall>c\<in>set cands. c \<noteq> {} \<and> c \<subseteq> {..<26} \<Longrightarrow>
   length cands' = k \<and> (\<forall>c\<in>set cands'. c \<noteq> {} \<and> c \<subseteq> {..<26})"
proof (induction ps arbitrary: cands)
  case Nil
  then show ?case by simp
next
  case (Cons i ps)
  define p where "p = pos_to_key_index i k"
  define poss where "poss = possible_shifts_for_pair (s ! i) (v ! i) (modifier_for_pos i)"
  define c1 where "c1 = cands[p := cands ! p \<inter> set poss]"
  have step: "(if k = 0 then Inl ZeroDivisionError
      else if length v \<le> i then Inl IndexError
      else if poss = [] then Inr None
      else if c1 ! p = {} then Inr None
      else derive_loop s v k ps c1) = Inr (Some cands')"
    using Cons.prems(1) unfolding derive_loop_step p_def poss_def c1_def .
  have k: "0 < k" using step by (cases "k = 0") simp_all
  have ne: "c1 ! p \<noteq> {}" and rec: "derive_loop s v k ps c1 = Inr (Some cands')"
    using step by (simp_all split: if_splits)
  have p: "p < length cands" using k Cons.prems(2) by (simp add: p_def pos_to_key_index_less)
  have len: "length c1 = k" using Cons.prems(2) by (simp add: c1_def)
  have "\<forall>c\<in>set c1. c \<noteq> {} \<and> c \<subseteq> {..<26}"
  proof
    fix c assume "c \<in> set c1"
    then have "c = cands ! p \<inter> set poss \<or> c \<in> set cands"
      using set_update_subset_insert[of cands p] unfolding c1_def by blast
    moreover have "cands ! p \<in> set cands" using p by simp
    moreover have "cands ! p \<inter> set poss \<noteq> {}" using ne p by (simp add: c1_def)
    ultimately show "c \<noteq> {} \<and> c \<subseteq> {..<26}"
      using Cons.prems(3) by blast
  qed
  from Cons.IH[OF rec len this] show ?case .
qed

lemma replicate_full_good: "\<forall>c\<in>set (replicate k (set [0..<26])). c \<noteq> {} \<and> c \<subseteq> {..<26}"
proof
  fix c assume "c \<in> set (replicate k (set [0..<26]))"
  then have "c = {0..<26}" by (cases "k = 0") simp_all
  then show "c \<noteq> {} \<and> c \<subseteq> {..<26}" by auto
qed

lemma derive_candidates_Some:
  assumes "derive_loop s v k [0..<length s] (replicate k (set [0..<26])) = Inr (Some cands)"
  shows "derive_candidates_for_keylen s v k mx =
     (if total_comb_loop mx (map sorted_list_of_set cands) 1 = 0 then Inr None
      else if int (total_comb_loop mx (map sorted_list_of_set cands) 1) \<le> mx then
        (case enumerate_keys (product_lists (map sorted_list_of_set cands)) of
           Inl e \<Rightarrow> Inl e
         | Inr keys \<Rightarrow>
             Inr (Some \<lparr> keylen = k,
                         per_position_candidates = map sorted_list_of_set cands,
                         enumerated_keys = Some keys,
                         estimated_combinations =
                           total_comb_loop mx (map sorted_list_of_set cands) 1 \<rparr>))
      else
        Inr (Some \<lparr> keylen = k,
                    per_position_candidates = map sorted_list_of_set cands,
                    enumerated_keys = None,
                    estimated_combinations =
                      total_comb_loop mx (map sorted_list_of_set cands) 1 \<rparr>))"
  unfolding derive_candidates_for_keylen_def assms Let_def by simp

lemma derive_candidates_Some_loop:
  assumes "derive_candidates_for_keylen s v k mx = Inr (Some r)"
  shows "\<exists>cands. derive_loop s v k [0..<length s] (replicate k (set [0..<26])) = Inr (Some cands)"
proof (cases "derive_loop s v k [0..<length s] (replicate k (set [0..<26]))")
  case (Inl e)
  with assms show ?thesis unfolding derive_candidates_for_keylen_def by simp
next
  case (Inr res)
  with assms show ?thesis unfolding derive_candidates_for_keylen_def by (cases res) simp_all
qed

lemma total_comb_loop_pos: "0 < t \<Longrightarrow> 0 < total_comb_loop mx ls t"
proof (induction ls arbitrary: t)
  case Nil
  then show ?case by simp
next
  case (Cons l ls)
  have "0 < t * max 1 (length l)" using Cons.prems by simp
  then show ?case using Cons.IH[of "t * max 1 (length l)"] by (simp add: Let_def)
qed

lemma sorted_list_nonempty:
  "c \<noteq> {} \<Longrightarrow> c \<subseteq> {..<26::nat} \<Longrightarrow> sorted_list_of_set c \<noteq> [] \<and> set (sorted_list_of_set c) = c"
proof -
  assume a: "c \<noteq> {}" "c \<subseteq> {..<26::nat}"
  have f: "finite c" using a(2) by (rule finite_subset) simp
  show ?thesis using f a(1) by simp
qed

text \<open>
  C9. Whenever \<open>derive_candidates_for_keylen\<close> returns a result, every per-position
  candidate list is non-empty, the field \<open>enumerated_keys\<close> is \<open>None\<close> exactly when
  the product of the candidate-list sizes exceeds \<open>max_combinations\<close>, and otherwise it is
  the full Cartesian product of the candidate lists (in the order of
  \<open>itertools.product\<close>), each combination paired with its string of key letters.
\<close>

theorem enumerated_keys_cap:
  assumes "derive_candidates_for_keylen s v k mx = Inr (Some r)"
  shows "(\<forall>l\<in>set (per_position_candidates r). l \<noteq> []) \<and>
         (enumerated_keys r = None \<longleftrightarrow>
            mx < int (prod_list (map length (per_position_candidates r)))) \<and>
         (int (prod_list (map length (per_position_candidates r))) \<le> mx \<longrightarrow>
            enumerated_keys r =
              Some (map (\<lambda>combo. (combo, map (\<lambda>x. standard_alphabet ! x) combo))
                     (product_lists (per_position_candidates r))))"
proof -
  from derive_candidates_Some_loop[OF assms] obtain cands where
    dl: "derive_loop s v k [0..<length s] (replicate k (set [0..<26])) = Inr (Some cands)"
    by blast
  define ls where "ls = map sorted_list_of_set cands"
  define t where "t = total_comb_loop mx ls 1"
  define P where "P = prod_list (map length ls)"
  define ks where "ks = map (\<lambda>combo. (combo, map (\<lambda>x. standard_alphabet ! x) combo)) (product_lists ls)"
  note unf = assms[unfolded derive_candidates_Some[OF dl], folded ls_def, folded t_def]
  have inv: "length cands = k \<and> (\<forall>c\<in>set cands. c \<noteq> {} \<and> c \<subseteq> {..<26})"
    using derive_loop_inv[OF dl _ replicate_full_good] by simp
  have good: "l \<noteq> [] \<and> (\<forall>x\<in>set l. x < 26)" if "l \<in> set ls" for l
  proof -
    from that obtain c where c: "c \<in> set cands" "l = sorted_list_of_set c"
      unfolding ls_def by auto
    then have "c \<noteq> {}" "c \<subseteq> {..<26}" using inv by auto
    from sorted_list_nonempty[OF this] c(2) \<open>c \<subseteq> {..<26}\<close> show ?thesis by auto
  qed
  have ne: "\<forall>l\<in>set ls. l \<noteq> []" using good by blast
  have small: "\<forall>combo\<in>set (product_lists ls). \<forall>x\<in>set combo. x < 26"
  proof (intro ballI)
    fix combo x assume cx: "combo \<in> set (product_lists ls)" "x \<in> set combo"
    from product_lists_elems[OF cx] obtain xs where xs: "xs \<in> set ls" "x \<in> set xs" ..
    from good[OF xs(1)] xs(2) show "x < 26" by simp
  qed
  have tc: "(int t \<le> mx \<longleftrightarrow> int P \<le> mx) \<and> (int P \<le> mx \<longrightarrow> t = P)"
    using total_comb_loop_prod[OF ne, of mx 1] by (simp add: t_def P_def)
  have tpos: "t \<noteq> 0" using total_comb_loop_pos[of 1 mx ls] by (simp add: t_def)
  have ek: "enumerate_keys (product_lists ls) = Inr ks"
    unfolding ks_def by (rule enumerate_keys_ok[OF small])
  have main: "per_position_candidates r = ls \<and>
      (enumerated_keys r = None \<longleftrightarrow> mx < int P) \<and>
      (int P \<le> mx \<longrightarrow> enumerated_keys r = Some ks)"
  proof (cases "int P \<le> mx")
    case True
    then have "int t \<le> mx" using tc by simp
    with unf ek tpos have "r = \<lparr> keylen = k, per_position_candidates = ls,
        enumerated_keys = Some ks, estimated_combinations = t \<rparr>" by simp
    with True show ?thesis by simp
  next
    case False
    then have "\<not> int t \<le> mx" using tc by simp
    with tpos unf have "r = \<lparr> keylen = k, per_position_candidates = ls,
        enumerated_keys = None, estimated_combinations = t \<rparr>" by simp
    with False show ?thesis by simp
  qed
  with ne show ?thesis unfolding P_def ks_def by simp
qed

theorem enumerated_keys_cap_witness:
  "derive_candidates_for_keylen ''AB'' ''AB'' 1 200 =
     Inr (Some \<lparr> keylen = 1, per_position_candidates = [[0]],
                  enumerated_keys = Some [([0], ''A'')], estimated_combinations = 1 \<rparr>) \<and>
   derive_candidates_for_keylen ''A'' ''A'' 3 200 =
     Inr (Some \<lparr> keylen = 3, per_position_candidates = [[0], [0..<26], [0..<26]],
                  enumerated_keys = None, estimated_combinations = 676 \<rparr>) \<and>
   (200::int) < int (prod_list (map length [[0::nat], [0..<26], [0..<26]]))"
proof -
  have h1: "derive_candidates_for_keylen ''AB'' ''AB'' 1 200 =
     Inr (Some \<lparr> keylen = 1, per_position_candidates = [[0]],
                  enumerated_keys = Some [([0], ''A'')], estimated_combinations = 1 \<rparr>)"
    by code_simp
  have h2: "derive_candidates_for_keylen ''A'' ''A'' 3 200 =
     Inr (Some \<lparr> keylen = 3, per_position_candidates = [[0], [0..<26], [0..<26]],
                  enumerated_keys = None, estimated_combinations = 676 \<rparr>)"
    by code_simp
  show ?thesis
    using h1 h2 enumerated_keys_cap [OF h1] enumerated_keys_cap [OF h2] by simp
qed

section \<open>Soundness of the key recovery\<close>

lemma is_upper_chr: "is_upper c \<Longrightarrow> c = chr (65 + int (nat (ord c - 65))) \<and> nat (ord c - 65) < 26"
proof -
  assume "is_upper c"
  then have b: "65 \<le> ord c" "ord c \<le> 90" by (simp_all add: is_upper_def)
  then have "65 + int (nat (ord c - 65)) = ord c" by simp
  then have "chr (65 + int (nat (ord c - 65))) = c" by (simp only: chr_ord)
  then show ?thesis using b by simp
qed

lemma encrypted_char_upper:
  assumes "a < 26"
  shows "encrypted_char (chr (65 + int a)) (int sh) (int m) = chr (65 + int ((a + sh * m) mod 26))"
proof -
  have "ord (chr (65 + int a)) = 65 + int a" using assms by (intro ord_chr) simp_all
  then have "(ord (chr (65 + int a)) - 65 + int sh * int m) mod 26 = int ((a + sh * m) mod 26)"
    by (simp add: zmod_int)
  then show ?thesis unfolding encrypted_char_def by (simp add: add.commute)
qed

lemma possible_shifts_sound:
  assumes c: "is_upper c" and kc: "is_upper kc"
  shows "nat (ord kc - 65) \<in>
           set (possible_shifts_for_pair c (encrypted_char c (ord kc - 65) (int m)) m)"
proof -
  define a where "a = nat (ord c - 65)"
  define sh where "sh = nat (ord kc - 65)"
  have a: "c = chr (65 + int a)" "a < 26" using is_upper_chr[OF c] by (simp_all add: a_def)
  have sh: "sh < 26" "ord kc - 65 = int sh"
    using is_upper_chr[OF kc] kc by (simp_all add: sh_def is_upper_def)
  have enc: "encrypted_char c (ord kc - 65) (int m) = chr (65 + int ((a + sh * m) mod 26))"
    unfolding sh(2) using encrypted_char_upper[OF a(2), of sh m] a(1) by simp
  have m1: "ALPHABET_MAP c = Some a" using ALPHABET_MAP_chr[OF a(2)] a(1) by simp
  have m2: "ALPHABET_MAP (chr (65 + int ((a + sh * m) mod 26))) = Some ((a + sh * m) mod 26)"
    by (rule ALPHABET_MAP_chr) simp
  have "sh \<in> set (filter (\<lambda>s. (a + s * m) mod 26 = (a + sh * m) mod 26) [0..<26])"
    using sh(1) by simp
  then show ?thesis
    unfolding possible_shifts_for_pair_def enc m1 m2 sh_def[symmetric] by simp
qed

lemma length_vigenere_encrypt [simp]: "length (vigenere_encrypt key s) = length s"
  by (simp add: vigenere_encrypt_def)

lemma derive_loop_sound:
  assumes K: "0 < length key" and keyU: "\<forall>c\<in>set key. is_upper c"
    and subU: "\<forall>c\<in>set sub. is_upper c"
  shows "\<forall>i\<in>set ps. i < length sub \<Longrightarrow> length cands = length key \<Longrightarrow>
         \<forall>p<length key. key_shift key p \<in> cands ! p \<Longrightarrow>
         \<exists>cands'. derive_loop sub (vigenere_encrypt key sub) (length key) ps cands = Inr (Some cands') \<and>
                  length cands' = length key \<and>
                  (\<forall>p<length key. key_shift key p \<in> cands' ! p)"
proof (induction ps arbitrary: cands)
  case Nil
  then show ?case by simp
next
  case (Cons i ps)
  let ?K = "length key"
  let ?v = "vigenere_encrypt key sub"
  define p where "p = pos_to_key_index i ?K"
  define poss where "poss = possible_shifts_for_pair (sub ! i) (?v ! i) (modifier_for_pos i)"
  define c1 where "c1 = cands[p := cands ! p \<inter> set poss]"
  have i: "i < length sub" using Cons.prems(1) by simp
  have p: "p < ?K" unfolding p_def by (rule pos_to_key_index_less[OF K])
  have idx: "effective_key_index ?K i = p"
    unfolding p_def by (rule effective_index_aux[OF K])
  have md: "int (i mod 5) + 1 = int (modifier_for_pos i)" by (simp add: modifier_for_pos_def)
  have vi: "?v ! i = encrypted_char (sub ! i) (ord (key ! p) - 65) (int (modifier_for_pos i))"
    using vigenere_encrypt_nth[OF K i] by (simp only: idx md)
  have "key_shift key p \<in> set poss"
    unfolding poss_def vi key_shift_def
    using subU keyU i p by (intro possible_shifts_sound) simp_all
  then have poss_ne: "poss \<noteq> []" and inter: "key_shift key p \<in> cands ! p \<inter> set poss"
    using Cons.prems(3) p by auto
  have c1p: "c1 ! p = cands ! p \<inter> set poss" using p Cons.prems(2) by (simp add: c1_def)
  have c1ne: "c1 ! p \<noteq> {}" using inter c1p by auto
  have len1: "length c1 = ?K" using Cons.prems(2) by (simp add: c1_def)
  have inv1: "\<forall>q<?K. key_shift key q \<in> c1 ! q"
  proof (intro allI impI)
    fix q assume q: "q < ?K"
    show "key_shift key q \<in> c1 ! q"
    proof (cases "q = p")
      case True
      then show ?thesis using inter c1p by simp
    next
      case False
      then show ?thesis using Cons.prems(3) q by (simp add: c1_def)
    qed
  qed
  have rest: "\<forall>i\<in>set ps. i < length sub" using Cons.prems(1) by simp
  have "derive_loop sub ?v ?K (i # ps) cands = derive_loop sub ?v ?K ps c1"
    unfolding derive_loop_step p_def[symmetric] poss_def[symmetric] c1_def[symmetric]
    using K i poss_ne c1ne by simp
  then show ?case using Cons.IH[OF rest len1 inv1] by simp
qed

lemma derive_candidates_result:
  assumes dl: "derive_loop s v k [0..<length s] (replicate k (set [0..<26])) = Inr (Some cands)"
  shows "\<exists>r. derive_candidates_for_keylen s v k mx = Inr (Some r) \<and>
             per_position_candidates r = map sorted_list_of_set cands"
proof -
  define ls where "ls = map sorted_list_of_set cands"
  define t where "t = total_comb_loop mx ls 1"
  note unf = derive_candidates_Some[OF dl, of mx, folded ls_def, folded t_def]
  have inv: "length cands = k \<and> (\<forall>c\<in>set cands. c \<noteq> {} \<and> c \<subseteq> {..<26})"
    using derive_loop_inv[OF dl _ replicate_full_good] by simp
  have good: "l \<noteq> [] \<and> (\<forall>x\<in>set l. x < 26)" if "l \<in> set ls" for l
  proof -
    from that obtain c where c: "c \<in> set cands" "l = sorted_list_of_set c"
      unfolding ls_def by auto
    then have "c \<noteq> {}" "c \<subseteq> {..<26}" using inv by auto
    from sorted_list_nonempty[OF this] c(2) \<open>c \<subseteq> {..<26}\<close> show ?thesis by auto
  qed
  have small: "\<forall>combo\<in>set (product_lists ls). \<forall>x\<in>set combo. x < 26"
  proof (intro ballI)
    fix combo x assume cx: "combo \<in> set (product_lists ls)" "x \<in> set combo"
    from product_lists_elems[OF cx] obtain xs where xs: "xs \<in> set ls" "x \<in> set xs" ..
    from good[OF xs(1)] xs(2) show "x < 26" by simp
  qed
  have tpos: "t \<noteq> 0" using total_comb_loop_pos[of 1 mx ls] by (simp add: t_def)
  note ek = enumerate_keys_ok[OF small]
  show ?thesis
  proof (cases "int t \<le> mx")
    case True
    with unf ek tpos show ?thesis by (simp add: ls_def)
  next
    case False
    with unf tpos show ?thesis by (simp add: ls_def)
  qed
qed

text \<open>
  C5, as stated, fails: nothing restricts the substituted text or the key to letters. The
  substituted text is the image of the cleaned text under the substitution key, which
  construction accepts with non-letters (the pipeline itself produces the substituted text
  \<open>[\<close> and the Vigenere result \<open>K\<close> below), and \<open>possible_shifts_for_pair\<close> returns no
  shift for a character outside \<open>A\<close> to \<open>Z\<close>, so the true key length 10 is reported
  infeasible. With the accepted Vigenere key \<open>0123456789\<close> the shift of the first key
  character is \<open>-17\<close>, and the candidates returned for that position are \<open>[9]\<close>.
\<close>

lemma pipeline_produces_non_letter_substituted_text:
  "\<exists>c r. mlcc_init ''bB[DEFGHIJKLMNOPQRSTUVWXYZ'' ''KEYKEYKEYK'' [3, 1, 2] = Inr c \<and>
         encrypt c ''C'' = Inr r \<and> substituted_text r = ''['' \<and> vigenere_result r = ''K'' \<and>
         vigenere_key c = ''KEYKEYKEYK''"
proof -
  have e: "(case mlcc_init ''bB[DEFGHIJKLMNOPQRSTUVWXYZ'' ''KEYKEYKEYK'' [3, 1, 2] of
              Inl _ \<Rightarrow> False
            | Inr c \<Rightarrow>
                vigenere_key c = ''KEYKEYKEYK'' \<and>
                (case encrypt c ''C'' of
                   Inl _ \<Rightarrow> False
                 | Inr r \<Rightarrow> substituted_text r = ''['' \<and> vigenere_result r = ''K''))"
    by code_simp
  then obtain c where c: "mlcc_init ''bB[DEFGHIJKLMNOPQRSTUVWXYZ'' ''KEYKEYKEYK'' [3, 1, 2] = Inr c"
    by (cases "mlcc_init ''bB[DEFGHIJKLMNOPQRSTUVWXYZ'' ''KEYKEYKEYK'' [3, 1, 2]") simp_all
  from e c obtain r where "encrypt c ''C'' = Inr r" "substituted_text r = ''[''"
    "vigenere_result r = ''K''" "vigenere_key c = ''KEYKEYKEYK''"
    by (cases "encrypt c ''C''") simp_all
  with c show ?thesis by blast
qed

theorem recovery_excludes_non_letter_inputs_counterexample:
  "vigenere_encrypt ''KEYKEYKEYK'' ''['' = ''K'' \<and>
   derive_candidates_for_keylen ''['' ''K'' (length ''KEYKEYKEYK'') 200 = Inr None \<and>
   vigenere_encrypt ''0123456789'' ''A'' = ''J'' \<and>
   ord (''0123456789'' ! 0) - 65 = - 17 \<and>
   derive_candidates_for_keylen ''A'' ''J'' (length ''0123456789'') 200 =
     Inr (Some \<lparr> keylen = 10,
                  per_position_candidates =
                    [[9], [0..<26], [0..<26], [0..<26], [0..<26], [0..<26], [0..<26],
                     [0..<26], [0..<26], [0..<26]],
                  enumerated_keys = None, estimated_combinations = 676 \<rparr>)"
  by code_simp

text \<open>
  C5, amended. Let \<open>sub\<close> be a substituted text and \<open>key\<close> a non-empty Vigenere key, both
  made of the letters \<open>A\<close> to \<open>Z\<close> only, and let the Vigenere result be produced from
  \<open>sub\<close> by the pipeline's modified Vigenere encryption with \<open>key\<close>. Then
  \<open>derive_candidates_for_keylen\<close> at the key's length does not report the length
  infeasible (it returns a result, whatever the enumeration cap), and at every key
  position the numeric shift of the true key letter is among the returned candidates for
  that position.
\<close>

theorem true_key_never_excluded:
  assumes K: "0 < length key" and keyU: "\<forall>c\<in>set key. is_upper c"
    and subU: "\<forall>c\<in>set sub. is_upper c"
  shows "\<exists>r. derive_candidates_for_keylen sub (vigenere_encrypt key sub) (length key) mx =
               Inr (Some r) \<and>
             length (per_position_candidates r) = length key \<and>
             (\<forall>p<length key. key_shift key p \<in> set (per_position_candidates r ! p))"
proof -
  let ?K = "length key"
  let ?v = "vigenere_encrypt key sub"
  have init: "\<forall>p<?K. key_shift key p \<in> replicate ?K (set [0..<26]) ! p"
  proof (intro allI impI)
    fix p assume p: "p < ?K"
    then have "is_upper (key ! p)" using keyU by simp
    then have "key_shift key p < 26" using is_upper_chr unfolding key_shift_def by blast
    then show "key_shift key p \<in> replicate ?K (set [0..<26]) ! p" using p by simp
  qed
  from derive_loop_sound[OF K keyU subU, of "[0..<length sub]" "replicate ?K (set [0..<26])"] init
  obtain cands where
    dl: "derive_loop sub ?v ?K [0..<length sub] (replicate ?K (set [0..<26])) = Inr (Some cands)"
    and len: "length cands = ?K" and inv: "\<forall>p<?K. key_shift key p \<in> cands ! p"
    by auto
  from derive_candidates_result[of sub ?v ?K cands mx] dl
  obtain r where r: "derive_candidates_for_keylen sub ?v ?K mx = Inr (Some r)"
    "per_position_candidates r = map sorted_list_of_set cands"
    by auto
  have good: "\<forall>c\<in>set cands. c \<noteq> {} \<and> c \<subseteq> {..<26}"
    using derive_loop_inv[OF dl _ replicate_full_good] by simp
  have "key_shift key p \<in> set (per_position_candidates r ! p)" if p: "p < ?K" for p
  proof -
    have "cands ! p \<in> set cands" using p len by simp
    then have "set (sorted_list_of_set (cands ! p)) = cands ! p"
      using good sorted_list_nonempty by blast
    then show ?thesis using inv p len by (simp add: r(2))
  qed
  then show ?thesis using r len by auto
qed

theorem true_key_never_excluded_witness:
  "0 < length ''KEYKEYKEYK'' \<and>
   (\<exists>r. derive_candidates_for_keylen ''SVOOLDLIOW'' (vigenere_encrypt ''KEYKEYKEYK'' ''SVOOLDLIOW'')
           (length ''KEYKEYKEYK'') 200 = Inr (Some r) \<and>
        length (per_position_candidates r) = length ''KEYKEYKEYK'' \<and>
        (\<forall>p<length ''KEYKEYKEYK''. key_shift ''KEYKEYKEYK'' p \<in> set (per_position_candidates r ! p)))"
proof -
  have h1: "0 < length ''KEYKEYKEYK''" by simp
  have h2: "\<forall>c\<in>set ''KEYKEYKEYK''. is_upper c" by (simp add: is_upper_def ord_def)
  have h3: "\<forall>c\<in>set ''SVOOLDLIOW''. is_upper c" by (simp add: is_upper_def ord_def)
  show ?thesis using h1 true_key_never_excluded [OF h1 h2 h3, of 200] by blast
qed

section \<open>The transposition solver's decoder against the zigzag transform\<close>

text \<open>
  C3 does not hold of the code. \<open>columnar_decrypt\<close> is meant to undo the transposition
  for a given key order, and it does not, on ciphertexts that the pipeline's transposition
  produced with that column order:
  \<^item> when the number of columns divides the length, \<open>full_cols\<close> is 0, every column is
    given \<open>n_rows - 1\<close> characters and the last row is lost: \<open>ABC\<close> on three columns
    (identity order, ciphertext \<open>ABC\<close>) is decoded to the empty string, and \<open>ABCDEF\<close>
    (ciphertext \<open>AFBECD\<close>) to \<open>AFB\<close>;
  \<^item> the key order only permutes the column lengths, the columns themselves are taken
    from the ciphertext in their natural order: with the column order \<open>[1, 2, 0]\<close> of the
    key \<open>[3, 1, 2]\<close> the one-row text \<open>AB\<close>, sent to \<open>BA\<close>, is returned as \<open>BA\<close>;
  \<^item> rows are read left to right only, so the right-to-left rows of the zigzag fill come
    back reversed: \<open>ABCDE\<close> (ciphertext \<open>ABECD\<close>) is decoded to \<open>AEDBC\<close>.
\<close>

theorem columnar_decrypt_loses_pipeline_text:
  "column_order [0, 1, 2] = [0, 1, 2] \<and>
   transposition_encrypt [0, 1, 2] ''ABC'' = ''ABC'' \<and>
   columnar_decrypt ''ABC'' [0, 1, 2] = Inr [] \<and>
   transposition_encrypt [0, 1, 2] ''ABCDEF'' = ''AFBECD'' \<and>
   columnar_decrypt ''AFBECD'' [0, 1, 2] = Inr ''AFB'' \<and>
   transposition_encrypt [0, 1, 2] ''ABCDE'' = ''ABECD'' \<and>
   columnar_decrypt ''ABECD'' [0, 1, 2] = Inr ''AEDBC'' \<and>
   column_order [3, 1, 2] = [1, 2, 0] \<and>
   transposition_encrypt [3, 1, 2] ''AB'' = ''BA'' \<and>
   columnar_decrypt ''BA'' [1, 2, 0] = Inr ''BA''"
  by code_simp

section \<open>Misaligned inputs of the key recoverer\<close>

text \<open>
  C7, as stated, fails for \<open>derive_candidates_for_keylen\<close>, which never compares the two
  lengths: with a longer Vigenere string it returns a result computed from the prefix,
  and with a shorter one it stops with \<open>IndexError\<close>.
\<close>

theorem derive_length_mismatch_counterexample:
  "length ''A'' \<noteq> length ''AB'' \<and>
   derive_candidates_for_keylen ''A'' ''AB'' 3 200 =
     Inr (Some \<lparr> keylen = 3, per_position_candidates = [[0], [0..<26], [0..<26]],
                  enumerated_keys = None, estimated_combinations = 676 \<rparr>) \<and>
   derive_candidates_for_keylen ''AB'' ''A'' 3 200 = Inl IndexError"
  by code_simp

text \<open>
  C7, amended. For every pair of input strings whose cleaned forms differ in length, the
  key recoverer's entry point \<open>main\<close> stops with the length-mismatch error (exit status 2)
  before any trial key length is examined, whatever the range of trial lengths and the
  enumeration cap.
\<close>

theorem main_rejects_length_mismatch:
  "length (clean_alpha sub_raw) \<noteq> length (clean_alpha vig_raw) \<Longrightarrow>
   vigenere_main sub_raw vig_raw min_keylen max_keylen max_enumerate = Inl (SystemExit 2)"
  by (simp add: vigenere_main_def)

theorem main_rejects_length_mismatch_witness:
  "length (clean_alpha ''a'') \<noteq> length (clean_alpha ''ab'') \<and>
   vigenere_main ''a'' ''ab'' 3 20 200 = Inl (SystemExit 2)"
proof -
  have h: "length (clean_alpha ''a'') \<noteq> length (clean_alpha ''ab'')" by code_simp
  show ?thesis using h main_rejects_length_mismatch [OF h, of 3 20 200] by simp
qed

section \<open>Substitution keys that are validated before they are upper-cased\<close>

lemma dom_fold_upd:
  "dom (fold (\<lambda>i m. m(ks ! i \<mapsto> vs ! i)) idxs m0) = dom m0 \<union> (\<lambda>i. ks ! i) ` set idxs"
  by (induction idxs arbitrary: m0) auto

lemma dom_build_map: "length ks = 26 \<Longrightarrow> dom (build_map ks vs) = set ks"
proof -
  assume l: "length ks = 26"
  have "set [0..<26] = {i. i < length ks}" using l by auto
  then have "(\<lambda>i. ks ! i) ` set [0..<26] = set ks"
    by (simp only: set_conv_nth image_Collect)
  then show ?thesis unfolding build_map_def dom_fold_upd by simp
qed

lemma mlcc_init_Inr:
  "mlcc_init sk vk tk = Inr c \<Longrightarrow>
   length sk = 26 \<and>
   substitution_map c = build_map standard_alphabet (upper sk) \<and>
   reverse_substitution_map c = build_map (upper sk) standard_alphabet \<and>
   vigenere_key c = upper vk \<and> transposition_key c = tk \<and>
   10 \<le> length vk \<and> 3 \<le> length tk"
  by (auto simp: mlcc_init_def split: if_splits)

text \<open>
  C10. Construction checks the substitution key for 26 distinct characters before it
  upper-cases it. The key \<open>bB[DEFGHIJKLMNOPQRSTUVWXYZ\<close>, which holds a non-letter and two
  characters that differ only in case, is accepted; its reverse substitution map has 25
  entries, its substitution map sends \<open>A\<close> and \<open>B\<close> to the same symbol, and \<open>decrypt\<close>
  raises \<open>KeyError\<close> on the ciphertext that \<open>encrypt\<close> produced for the plaintext \<open>C\<close>.
\<close>

theorem validation_before_uppercasing:
  "\<exists>c r. mlcc_init ''bB[DEFGHIJKLMNOPQRSTUVWXYZ'' ''KEYKEYKEYK'' [3, 1, 2] = Inr c \<and>
         card (dom (reverse_substitution_map c)) = 25 \<and>
         substitution_map c (CHR ''A'') = substitution_map c (CHR ''B'') \<and>
         encrypt c ''C'' = Inr r \<and>
         decrypt c (ciphertext r) = Inl KeyError"
proof -
  have e: "(case mlcc_init ''bB[DEFGHIJKLMNOPQRSTUVWXYZ'' ''KEYKEYKEYK'' [3, 1, 2] of
              Inl _ \<Rightarrow> False
            | Inr c \<Rightarrow>
                substitution_map c (CHR ''A'') = substitution_map c (CHR ''B'') \<and>
                (case encrypt c ''C'' of
                   Inl _ \<Rightarrow> False
                 | Inr r \<Rightarrow> decrypt c (ciphertext r) = Inl KeyError))"
    by code_simp
  then obtain c where c: "mlcc_init ''bB[DEFGHIJKLMNOPQRSTUVWXYZ'' ''KEYKEYKEYK'' [3, 1, 2] = Inr c"
    by (cases "mlcc_init ''bB[DEFGHIJKLMNOPQRSTUVWXYZ'' ''KEYKEYKEYK'' [3, 1, 2]") simp_all
  from e c obtain r where r: "encrypt c ''C'' = Inr r" "decrypt c (ciphertext r) = Inl KeyError"
    and ab: "substitution_map c (CHR ''A'') = substitution_map c (CHR ''B'')"
    by (cases "encrypt c ''C''") simp_all
  have "card (set (upper ''bB[DEFGHIJKLMNOPQRSTUVWXYZ'')) = 25" by code_simp
  moreover have "length (upper ''bB[DEFGHIJKLMNOPQRSTUVWXYZ'') = 26" by (simp add: upper_def)
  ultimately have "card (dom (reverse_substitution_map c)) = 25"
    using mlcc_init_Inr[OF c] by (simp add: dom_build_map)
  with c r ab show ?thesis by blast
qed

theorem validation_before_uppercasing_witness:
  "\<exists>c r. mlcc_init ''bB[DEFGHIJKLMNOPQRSTUVWXYZ'' ''KEYKEYKEYK'' [3, 1, 2] = Inr c \<and>
         encrypt c ''C'' = Inr r \<and> decrypt c (ciphertext r) = Inl KeyError"
  using validation_before_uppercasing by blast

text \<open>
  What does hold, for plaintexts of ASCII characters only (where \<open>upper\<close> and
  \<open>isalpha\<close> are modelled exactly; on a non-ASCII letter \<open>encrypt\<close> itself raises
  \<open>KeyError\<close> under every key): when the upper-cased substitution key is a permutation of
  the letters \<open>A\<close> to \<open>Z\<close>, both substitution maps are total on the letters and inverse
  to each other, the Vigenere stage is inverted letter by letter, and \<open>decrypt\<close> returns
  the cleaned plaintext.
\<close>

lemma fold_upd_notin:
  "k \<notin> (\<lambda>i. ks ! i) ` set idxs \<Longrightarrow> fold (\<lambda>i m. m(ks ! i \<mapsto> vs ! i)) idxs m0 k = m0 k"
  by (induction idxs arbitrary: m0) auto

lemma fold_upd_in:
  "distinct (map (\<lambda>i. ks ! i) idxs) \<Longrightarrow> i \<in> set idxs \<Longrightarrow>
   fold (\<lambda>i m. m(ks ! i \<mapsto> vs ! i)) idxs m0 (ks ! i) = Some (vs ! i)"
proof (induction idxs arbitrary: m0)
  case Nil
  then show ?case by simp
next
  case (Cons j idxs)
  show ?case
  proof (cases "i = j")
    case True
    have "ks ! j \<notin> (\<lambda>i. ks ! i) ` set idxs" using Cons.prems(1) by auto
    then have "fold (\<lambda>i m. m(ks ! i \<mapsto> vs ! i)) idxs (m0(ks ! j \<mapsto> vs ! j)) (ks ! j) =
               (m0(ks ! j \<mapsto> vs ! j)) (ks ! j)"
      by (rule fold_upd_notin)
    then show ?thesis unfolding True by (simp only: fold_simps fun_upd_same)
  next
    case False
    then show ?thesis using Cons by simp
  qed
qed

lemma build_map_nth:
  assumes "length ks = 26" and "distinct ks" and "i < 26"
  shows "build_map ks vs (ks ! i) = Some (vs ! i)"
proof -
  have "map (\<lambda>i. ks ! i) [0..<26] = ks" using assms(1) map_nth[of ks] by simp
  then have "distinct (map (\<lambda>i. ks ! i) [0..<26])" using assms(2) by simp
  then show ?thesis unfolding build_map_def using assms(3) by (intro fold_upd_in) simp_all
qed

lemma is_upper_alphabet: "is_upper c \<longleftrightarrow> c \<in> set standard_alphabet"
proof
  assume "is_upper c"
  then have "c = chr (65 + int (nat (ord c - 65)))" "nat (ord c - 65) < 26"
    using is_upper_chr by blast+
  then have "c = standard_alphabet ! nat (ord c - 65)" using alphabet_nth by simp
  then show "c \<in> set standard_alphabet"
    using \<open>nat (ord c - 65) < 26\<close> by (metis length_standard_alphabet nth_mem)
next
  assume "c \<in> set standard_alphabet"
  then obtain n where n: "n < 26" "c = standard_alphabet ! n"
    by (auto simp: in_set_conv_nth)
  then have "c = chr (65 + int n)" by (simp add: alphabet_nth)
  then have "ord c = 65 + int n" using n(1) by (simp add: ord_chr)
  then show "is_upper c" using n(1) by (simp add: is_upper_def)
qed

lemma clean_is_upper: "\<forall>c\<in>set (clean p). is_upper c"
proof
  fix c assume "c \<in> set (clean p)"
  then obtain x where x: "c = upper_char x" "isalpha (upper_char x)"
    by (auto simp: clean_def upper_def)
  show "is_upper c"
  proof (cases "97 \<le> ord x \<and> ord x \<le> 122")
    case True
    then have "ord (chr (ord x - 32)) = ord x - 32" by (intro ord_chr) simp_all
    then show ?thesis using True x by (simp add: upper_char_def is_upper_def)
  next
    case False
    then show ?thesis using x by (auto simp: upper_char_def is_upper_def isalpha_def)
  qed
qed

lemma lookup_all_map:
  "\<forall>x\<in>set xs. m x = Some (f x) \<Longrightarrow> lookup_all m xs = Inr (map f xs)"
  by (induction xs) simp_all

lemma decrypted_encrypted_char:
  assumes "is_upper c"
  shows "decrypted_char (encrypted_char c sh m) sh m = c"
proof -
  define a where "a = ord c - 65"
  define e where "e = (a + sh * m) mod 26"
  have a: "0 \<le> a" "a < 26" using assms by (simp_all add: a_def is_upper_def)
  have e: "0 \<le> e" "e < 26" by (simp_all add: e_def)
  have enc: "encrypted_char c sh m = chr (e + 65)"
    by (simp add: encrypted_char_def e_def a_def)
  have oe: "ord (chr (e + 65)) = e + 65" using e by (intro ord_chr) simp_all
  have "(e - sh * m) mod 26 = (a + sh * m - sh * m) mod 26"
    unfolding e_def by (rule mod_diff_left_eq)
  also have "\<dots> = a" using a by simp
  finally have "(e + 65 - 65 - sh * m + 26) mod 26 = a" by simp
  then have "decrypted_char (chr (e + 65)) sh m = chr (a + 65)"
    unfolding decrypted_char_def oe by simp
  also have "a + 65 = ord c" by (simp add: a_def)
  finally show ?thesis by (simp add: enc)
qed

lemma vigenere_decrypt_encrypt:
  assumes K: "0 < length key" and U: "\<forall>c\<in>set s. is_upper c"
  shows "vigenere_decrypt key (vigenere_encrypt key s) = s"
proof (rule nth_equalityI)
  show "length (vigenere_decrypt key (vigenere_encrypt key s)) = length s"
    by (simp add: vigenere_decrypt_def)
next
  fix i assume "i < length (vigenere_decrypt key (vigenere_encrypt key s))"
  then have i: "i < length s" by (simp add: vigenere_decrypt_def)
  then have i': "i < length (vigenere_encrypt key s)" by simp
  have "is_upper (s ! i)" using U i by simp
  then show "vigenere_decrypt key (vigenere_encrypt key s) ! i = s ! i"
    by (simp only: vigenere_decrypt_nth[OF K i'] vigenere_encrypt_nth[OF K i]
          decrypted_encrypted_char)
qed

lemma round_trip_for_permutation_keys:
  assumes init: "mlcc_init sk vk tk = Inr c"
    and perm: "set (upper sk) = set standard_alphabet"
    and ascii: "\<forall>ch\<in>set p. ord ch < 128"
  shows "\<exists>r. encrypt c p = Inr r \<and> decrypt c (ciphertext r) = Inr (clean p)"
proof -
  define K where "K = upper sk"
  define \<sigma> where "\<sigma> = (\<lambda>ch. K ! nat (ord ch - 65))"
  define cl where "cl = clean p"
  define sub where "sub = map \<sigma> cl"
  define vig where "vig = vigenere_encrypt (vigenere_key c) sub"
  note c = mlcc_init_Inr[OF init]
  have lenK: "length K = 26" using c by (simp add: K_def upper_def)
  have "card (set standard_alphabet) = 26"
    using distinct_card[OF distinct_standard_alphabet] by simp
  then have "card (set K) = length K" using perm lenK by (simp add: K_def)
  then have dK: "distinct K" by (rule card_distinct)
  have vk: "0 < length (vigenere_key c)" using c by (auto simp: upper_def)
  have tk: "0 < length (transposition_key c)" using c by auto
  have clU: "\<forall>ch\<in>set cl. is_upper ch" unfolding cl_def by (rule clean_is_upper)
  have fwd: "substitution_map c ch = Some (\<sigma> ch)" and bwd: "reverse_substitution_map c (\<sigma> ch) = Some ch"
    and img: "is_upper (\<sigma> ch)" if "is_upper ch" for ch
  proof -
    define n where "n = nat (ord ch - 65)"
    have n: "n < 26" using is_upper_chr[OF that] by (simp add: n_def)
    have an: "standard_alphabet ! n = ch"
      using is_upper_chr[OF that] alphabet_nth[OF n] by (simp add: n_def)
    have sm: "substitution_map c = build_map standard_alphabet K"
      and rm: "reverse_substitution_map c = build_map K standard_alphabet"
      using c by (simp_all add: K_def)
    have f1: "build_map standard_alphabet K (standard_alphabet ! n) = Some (K ! n)"
      by (rule build_map_nth[OF length_standard_alphabet distinct_standard_alphabet n])
    have f2: "build_map K standard_alphabet (K ! n) = Some (standard_alphabet ! n)"
      by (rule build_map_nth[OF lenK dK n])
    show "substitution_map c ch = Some (\<sigma> ch)"
      unfolding sm \<sigma>_def n_def[symmetric] by (rule f1[unfolded an])
    show "reverse_substitution_map c (\<sigma> ch) = Some ch"
      unfolding rm \<sigma>_def n_def[symmetric] by (rule f2[unfolded an])
    have "K ! n \<in> set K" using n lenK by simp
    then have "K ! n \<in> set standard_alphabet" using perm by (simp add: K_def)
    then show "is_upper (\<sigma> ch)"
      unfolding \<sigma>_def n_def[symmetric] by (simp only: is_upper_alphabet)
  qed
  have s1: "lookup_all (substitution_map c) cl = Inr sub"
    unfolding sub_def using clU fwd by (intro lookup_all_map) simp
  have subU: "\<forall>ch\<in>set sub. is_upper ch" using clU img by (auto simp: sub_def)
  define r where "r = \<lparr> ciphertext = transposition_encrypt (transposition_key c) vig,
      substituted_text = sub, vigenere_result = vig,
      grid = zigzag_fill vig (length (transposition_key c))
               (ceil_div (length vig) (length (transposition_key c))),
      column_order_used = column_order (transposition_key c) \<rparr>"
  have enc: "encrypt c p = Inr r"
    using s1 by (simp add: encrypt_def Let_def cl_def[symmetric] r_def vig_def)
  have d1: "transposition_decrypt (transposition_key c) (ciphertext r) = vig"
    by (simp add: r_def transposition_inverse[OF tk])
  have d2: "vigenere_decrypt (vigenere_key c) vig = sub"
    unfolding vig_def by (rule vigenere_decrypt_encrypt[OF vk subU])
  have d3: "lookup_all (reverse_substitution_map c) sub = Inr (map (\<lambda>x. x) cl)"
  proof -
    have "\<forall>x\<in>set cl. (reverse_substitution_map c \<circ> \<sigma>) x = Some x"
      using clU bwd by simp
    then show ?thesis unfolding sub_def
      by (induction cl) simp_all
  qed
  have "decrypt c (ciphertext r) = Inr cl"
    unfolding decrypt_def Let_def d1 d2 d3 by simp
  with enc show ?thesis unfolding cl_def by blast
qed

text \<open>
  C1 does not hold of the code. The key \<open>aABCDEFGHIJKLMNOPQRSTUVWXY\<close> has 26 distinct
  symbols and is accepted, with a Vigenere key of length 10 and a transposition key of
  length 3; the plaintext \<open>A\<close> is its own cleaned form, and decrypting its ciphertext
  returns \<open>B\<close>.
\<close>

theorem round_trip_fails_after_uppercasing:
  "\<exists>c r. mlcc_init ''aABCDEFGHIJKLMNOPQRSTUVWXY'' ''KEYKEYKEYK'' [3, 1, 2] = Inr c \<and>
         encrypt c ''A'' = Inr r \<and>
         decrypt c (ciphertext r) = Inr ''B'' \<and>
         clean ''A'' = ''A''"
proof -
  have e: "(case mlcc_init ''aABCDEFGHIJKLMNOPQRSTUVWXY'' ''KEYKEYKEYK'' [3, 1, 2] of
              Inl _ \<Rightarrow> False
            | Inr c \<Rightarrow>
                (case encrypt c ''A'' of
                   Inl _ \<Rightarrow> False
                 | Inr r \<Rightarrow> decrypt c (ciphertext r) = Inr ''B'' \<and> clean ''A'' = ''A''))"
    by code_simp
  then obtain c where c: "mlcc_init ''aABCDEFGHIJKLMNOPQRSTUVWXY'' ''KEYKEYKEYK'' [3, 1, 2] = Inr c"
    by (cases "mlcc_init ''aABCDEFGHIJKLMNOPQRSTUVWXY'' ''KEYKEYKEYK'' [3, 1, 2]") simp_all
  from e c obtain r where "encrypt c ''A'' = Inr r" "decrypt c (ciphertext r) = Inr ''B''"
    "clean ''A'' = ''A''"
    by (cases "encrypt c ''A''") simp_all
  with c show ?thesis by blast
qed

theorem round_trip_fails_after_uppercasing_witness:
  "\<exists>c r. mlcc_init ''aABCDEFGHIJKLMNOPQRSTUVWXY'' ''KEYKEYKEYK'' [3, 1, 2] = Inr c \<and>
         encrypt c ''A'' = Inr r \<and> decrypt c (ciphertext r) \<noteq> Inr (clean ''A'')"
proof -
  from round_trip_fails_after_uppercasing obtain c r where
    h: "mlcc_init ''aABCDEFGHIJKLMNOPQRSTUVWXY'' ''KEYKEYKEYK'' [3, 1, 2] = Inr c"
       "encrypt c ''A'' = Inr r" "decrypt c (ciphertext r) = Inr ''B''" "clean ''A'' = ''A''"
    by blast
  then have "decrypt c (ciphertext r) \<noteq> Inr (clean ''A'')" by simp
  with h show ?thesis by blast
qed

end
